theory Spec2Isabelle
  imports Main "HOL-Library.Char_ord" "HOL-Library.List_Lexorder" "HOL-Library.AList"
begin

section \<open>Key normalizer (scripts/build_prescricoes_parquet.py, normalize_key_expr)\<close>

text \<open>
  Strings are lists of 8-bit characters (the UTF-8 bytes of the Python string). The three
  polars string operations used by \<^verbatim>\<open>normalize_key_expr\<close> are modelled on the ASCII
  part of their behaviour; bytes of non-ASCII code points are neither letters nor white space
  and pass through unchanged.

  \<^item> \<^verbatim>\<open>str.to_uppercase()\<close> maps every character to its upper case.
  \<^item> \<^verbatim>\<open>str.strip_chars()\<close> without argument removes leading and trailing white space.
  \<^item> \<^verbatim>\<open>str.replace(r"\s+", " ", literal=False)\<close> replaces the first (leftmost,
    greedy) match of the pattern only: the method's parameter \<^verbatim>\<open>n\<close> defaults to 1, the
    method that replaces every match is \<^verbatim>\<open>str.replace_all\<close>.
\<close>

definition is_space :: "char \<Rightarrow> bool" where
  \<comment> \<open>the regular expression class \<^verbatim>\<open>\s\<close>: tab, line feed, vertical tab, form feed,
      carriage return, space\<close>
  "is_space c \<longleftrightarrow> c \<in> set [CHR 0x09, CHR 0x0A, CHR 0x0B, CHR 0x0C, CHR 0x0D, CHR 0x20]"

definition upper_char :: "char \<Rightarrow> char" where
  "upper_char c =
     (case map_of (zip ''abcdefghijklmnopqrstuvwxyz'' ''ABCDEFGHIJKLMNOPQRSTUVWXYZ'') c of
        Some u \<Rightarrow> u
      | None \<Rightarrow> c)"

definition to_uppercase :: "string \<Rightarrow> string" where
  "to_uppercase s = map upper_char s"

definition strip_chars :: "string \<Rightarrow> string" where
  "strip_chars s = rev (dropWhile is_space (rev (dropWhile is_space s)))"

text \<open>
  \<^verbatim>\<open>str.replace(r"\s+", " ")\<close>: the characters before the first white-space character
  are kept, the maximal run of white space that starts there becomes one space, and the rest
  of the string is copied as it is.
\<close>

fun str_replace_ws :: "string \<Rightarrow> string" where
  "str_replace_ws [] = []"
| "str_replace_ws (c # cs) =
     (if is_space c then CHR '' '' # dropWhile is_space cs else c # str_replace_ws cs)"

definition normalize_key :: "string \<Rightarrow> string" where
  \<comment> \<open>\<^verbatim>\<open>normalize_key_expr\<close> on one non-null text value\<close>
  "normalize_key s = str_replace_ws (strip_chars (to_uppercase s))"

text \<open>
  The normalization as the specification words it: every interior run of white space is
  collapsed. It is used for comparison only; nothing of the pipeline below calls it.
\<close>

fun collapse_ws_all :: "string \<Rightarrow> string" where
  "collapse_ws_all [] = []"
| "collapse_ws_all [c] = [if is_space c then CHR '' '' else c]"
| "collapse_ws_all (c # d # cs) =
     (if is_space c \<and> is_space d then collapse_ws_all (d # cs)
      else (if is_space c then CHR '' '' else c) # collapse_ws_all (d # cs))"

definition spec_normalize_key :: "string \<Rightarrow> string" where
  "spec_normalize_key s = collapse_ws_all (strip_chars (to_uppercase s))"

definition trimmed :: "string \<Rightarrow> bool" where
  "trimmed s \<longleftrightarrow> s = [] \<or> (\<not> is_space (hd s) \<and> \<not> is_space (last s))"


section \<open>Data frames\<close>

text \<open>
  A polars data frame is its list of column names together with its rows; a row gives every
  column its cell, in column order. A cell is null (\<open>None\<close>) or a value. Text, integer and
  Boolean values are modelled; floating-point columns are not.
\<close>

datatype val = VStr string | VInt int | VBool bool

type_synonym cell = "val option"

type_synonym row = "(string \<times> cell) list"

record frame =
  columns :: "string list"
  rows :: "row list"

datatype error =
    NoFiles
  | NoKeyColumns
  | EmptyHeader string
  | YearNotFound string
  | DuplicateError string
  | ColumnNotFound string
  | SchemaMismatch

text \<open>
  A lazy frame is a query plan; it is modelled by what collecting the plan yields, a frame or
  the error polars raises when it resolves the plan.
\<close>

type_synonym lazy_frame = "error + frame"

definition cell :: "row \<Rightarrow> string \<Rightarrow> cell" where
  \<comment> \<open>the value of column \<open>c\<close> in a row; it is only applied to columns the row has\<close>
  "cell r c = (case map_of r c of Some v \<Rightarrow> v | None \<Rightarrow> None)"

definition shaped :: "frame \<Rightarrow> bool" where
  \<comment> \<open>every row gives the frame's columns, in their order\<close>
  "shaped fr \<longleftrightarrow> list_all (\<lambda>r. map fst r = columns fr) (rows fr)"

definition digit_char :: "nat \<Rightarrow> char" where
  "digit_char d = ''0123456789'' ! (d mod 10)"

fun str_of_nat :: "nat \<Rightarrow> string" where
  "str_of_nat n = (if n < 10 then [digit_char n] else str_of_nat (n div 10) @ [digit_char n])"

declare str_of_nat.simps [simp del]

definition str_of_int :: "int \<Rightarrow> string" where
  "str_of_int i = (if i < 0 then CHR ''-'' # str_of_nat (nat (- i)) else str_of_nat (nat i))"

fun cast_utf8 :: "cell \<Rightarrow> string option" where
  \<comment> \<open>\<^verbatim>\<open>cast(pl.Utf8)\<close>\<close>
  "cast_utf8 None = None"
| "cast_utf8 (Some (VStr s)) = Some s"
| "cast_utf8 (Some (VInt i)) = Some (str_of_int i)"
| "cast_utf8 (Some (VBool b)) = Some (if b then ''true'' else ''false'')"

definition normalize_key_expr :: "cell \<Rightarrow> cell" where
  \<comment> \<open>the expression of \<^verbatim>\<open>normalize_key_expr\<close> on one cell; null stays null\<close>
  "normalize_key_expr c = map_option (\<lambda>s. VStr (normalize_key s)) (cast_utf8 c)"

definition zfill :: "nat \<Rightarrow> string \<Rightarrow> string" where
  \<comment> \<open>\<^verbatim>\<open>str.zfill(n)\<close>: zeros are put in front (behind a leading minus sign) up to length
      \<open>n\<close>; a longer string is returned as it is\<close>
  "zfill n s =
     (case s of
        c # t \<Rightarrow> if c = CHR ''-'' then c # replicate (n - length s) CHR ''0'' @ t
                 else replicate (n - length s) CHR ''0'' @ s
      | [] \<Rightarrow> replicate n CHR ''0'')"

definition with_columns :: "string \<Rightarrow> (row \<Rightarrow> cell) \<Rightarrow> frame \<Rightarrow> frame" where
  \<comment> \<open>\<^verbatim>\<open>with_columns(expr.alias(name))\<close>: a column of that name is replaced in place,
      a new name is appended\<close>
  "with_columns name f fr =
     \<lparr>columns = (if name \<in> set (columns fr) then columns fr else columns fr @ [name]),
      rows = map (\<lambda>r. AList.update name (f r) r) (rows fr)\<rparr>"

definition drop_columns :: "string list \<Rightarrow> frame \<Rightarrow> frame" where
  "drop_columns cs fr =
     \<lparr>columns = filter (\<lambda>c. c \<notin> set cs) (columns fr),
      rows = map (filter (\<lambda>(c, v). c \<notin> set cs)) (rows fr)\<rparr>"

definition with_row_index :: "string \<Rightarrow> nat \<Rightarrow> frame \<Rightarrow> lazy_frame" where
  \<comment> \<open>\<^verbatim>\<open>with_row_index(name, offset)\<close>: the index becomes the first column; a frame
      cannot hold two columns of one name\<close>
  "with_row_index name offset fr =
     (if name \<in> set (columns fr) then Inl (DuplicateError name)
      else Inr \<lparr>columns = name # columns fr,
                rows = map (\<lambda>(i, r). (name, Some (VInt (int (offset + i)))) # r)
                         (zip [0 ..< length (rows fr)] (rows fr))\<rparr>)"

definition right_name :: "string list \<Rightarrow> string \<Rightarrow> string" where
  \<comment> \<open>the name a column of the right frame has in the result of a join\<close>
  "right_name lcols c = (if c \<in> set lcols then c @ ''_right'' else c)"

definition join_row :: "string list \<Rightarrow> string list \<Rightarrow> string \<Rightarrow> row list \<Rightarrow> row \<Rightarrow> row list" where
  \<comment> \<open>the rows of a left join that stem from the left row \<open>lr\<close>\<close>
  "join_row rnames rcols key rrows lr =
     (case filter (\<lambda>rr. cell lr key \<noteq> None \<and> cell rr key = cell lr key) rrows of
        [] \<Rightarrow> [lr @ map (\<lambda>c. (c, None)) rnames]
      | ms \<Rightarrow> map (\<lambda>rr. lr @ zip rnames (map (cell rr) rcols)) ms)"

definition join_left :: "frame \<Rightarrow> frame \<Rightarrow> string \<Rightarrow> lazy_frame" where
  \<comment> \<open>\<^verbatim>\<open>left.join(right, on=key, how="left")\<close>: every left row is kept, once for each
      right row whose key is equal and not null, or once with nulls when there is none; a
      right column whose name the left frame has already gets the suffix \<^verbatim>\<open>_right\<close>\<close>
  "join_left l r key =
     (let rcols = filter (\<lambda>c. c \<noteq> key) (columns r);
          rnames = map (right_name (columns l)) rcols
      in case filter (\<lambda>c. c \<in> set (columns l)) rnames @
              filter (\<lambda>c. count_list rnames c > 1) rnames of
           c # _ \<Rightarrow> Inl (DuplicateError c)
         | [] \<Rightarrow>
           Inr \<lparr>columns = columns l @ rnames,
                rows = concat (map (join_row rnames rcols key (rows r)) (rows l))\<rparr>)"

definition unpivot :: "string list \<Rightarrow> string list \<Rightarrow> string \<Rightarrow> string \<Rightarrow> frame \<Rightarrow> lazy_frame" where
  \<comment> \<open>\<^verbatim>\<open>unpivot(index, on, variable_name, value_name)\<close>: one block of rows for each
      column of \<open>on\<close>, in the order of \<open>on\<close>, each block in the order of the frame's rows\<close>
  "unpivot index on variable_name value_name fr =
     (case filter (\<lambda>c. c = variable_name \<or> c = value_name) index @
           (if variable_name = value_name then [value_name] else []) of
        c # _ \<Rightarrow> Inl (DuplicateError c)
      | [] \<Rightarrow>
        Inr \<lparr>columns = index @ [variable_name, value_name],
             rows = concat (map (\<lambda>a. map (\<lambda>r.
                      map (\<lambda>c. (c, cell r c)) index @
                      [(variable_name, Some (VStr a)), (value_name, cell r a)]) (rows fr)) on)\<rparr>)"

text \<open>
  \<^verbatim>\<open>unique(subset=[k])\<close> is called with polars' defaults \<^verbatim>\<open>keep="any"\<close> and
  \<^verbatim>\<open>maintain_order=False\<close>: one row is kept for each distinct value of the column, and
  polars gives no guarantee which row of a group it is, nor of the order of the result. The
  engine's choice is a parameter \<open>uniq\<close> of the model; \<open>unique_any\<close> is what polars promises
  of it. \<open>keep_first\<close> and \<open>keep_last\<close> are two choices within the contract.
\<close>

definition unique_any :: "string \<Rightarrow> row list \<Rightarrow> row list \<Rightarrow> bool" where
  "unique_any k inp out \<longleftrightarrow>
     distinct (map (\<lambda>r. cell r k) out) \<and> set out \<subseteq> set inp \<and>
     set (map (\<lambda>r. cell r k) inp) \<subseteq> set (map (\<lambda>r. cell r k) out)"

definition unique_contract :: "(row list \<Rightarrow> row list) \<Rightarrow> bool" where
  "unique_contract uniq \<longleftrightarrow> (\<forall>inp. unique_any ''key_norm'' inp (uniq inp))"

fun keep_first_by :: "('a \<Rightarrow> 'b) \<Rightarrow> 'a list \<Rightarrow> 'a list" where
  "keep_first_by f [] = []"
| "keep_first_by f (x # xs) = x # keep_first_by f (filter (\<lambda>y. f y \<noteq> f x) xs)"

definition keep_first :: "row list \<Rightarrow> row list" where
  "keep_first rs = keep_first_by (\<lambda>r. cell r ''key_norm'') rs"



section \<open>Dictionary builder (build_dict_table)\<close>

definition py_isspace :: "char \<Rightarrow> bool" where
  \<comment> \<open>the characters Python's \<^verbatim>\<open>str.strip()\<close> removes\<close>
  "py_isspace c \<longleftrightarrow>
     c \<in> set [CHR 0x09, CHR 0x0A, CHR 0x0B, CHR 0x0C, CHR 0x0D,
               CHR 0x1C, CHR 0x1D, CHR 0x1E, CHR 0x1F, CHR 0x20]"

definition py_strip :: "string \<Rightarrow> string" where
  "py_strip s = rev (dropWhile py_isspace (rev (dropWhile py_isspace s)))"

definition sanitize_df_columns :: "frame \<Rightarrow> frame" where
  "sanitize_df_columns df =
     (let drop_cols = filter (\<lambda>c. py_strip c = []) (columns df)
      in if drop_cols \<noteq> [] then drop_columns drop_cols df else df)"

definition startswith :: "string \<Rightarrow> string \<Rightarrow> bool" where
  "startswith s p \<longleftrightarrow> take (length p) s = p"

definition filter_rows :: "(row \<Rightarrow> bool) \<Rightarrow> frame \<Rightarrow> frame" where
  "filter_rows p fr = fr\<lparr>rows := filter p (rows fr)\<rparr>"

definition dedup_keys :: "(row list \<Rightarrow> row list) \<Rightarrow> frame \<Rightarrow> frame" where
  \<comment> \<open>lines 68 to 72 of \<^verbatim>\<open>build_dict_table\<close>: null and empty keys are dropped, one row
      is kept for each key, the helper column of the unpivot is removed\<close>
  "dedup_keys uniq long0 =
     (let long1 = filter_rows (\<lambda>r. cell r ''key_norm'' \<noteq> None \<and>
                                  cell r ''key_norm'' \<noteq> Some (VStr [])) long0;
          long2 = long1\<lparr>rows := uniq (rows long1)\<rparr>
      in if ''alias_col'' \<in> set (columns long2)
         then drop_columns [''alias_col''] long2 else long2)"

definition build_dict_table ::
  "(row list \<Rightarrow> row list) \<Rightarrow> frame \<Rightarrow> error + frame \<times> string list" where
  \<comment> \<open>\<open>df0\<close> is the dictionary file as \<^verbatim>\<open>pl.read_csv\<close> returns it, every column text\<close>
  "build_dict_table uniq df0 =
     (let df = sanitize_df_columns df0;
          key_cols = filter (\<lambda>c. c \<in> set (columns df))
                       [''PRINCIPIO_ATIVO'', ''PRINCIPIO_ATIVO_1'', ''PRINCIPIO_ATIVO_2'']
      in if key_cols = [] then Inl NoKeyColumns
         else
           let df = fold (\<lambda>c. with_columns (''norm_'' @ c) (\<lambda>r. normalize_key_expr (cell r c)))
                      key_cols df;
               alias_norm_cols = map (\<lambda>c. ''norm_'' @ c) key_cols;
               descriptor_cols = filter (\<lambda>c. c \<notin> set key_cols \<and> \<not> startswith c ''norm_'')
                                   (columns df)
           in case unpivot descriptor_cols alias_norm_cols ''alias_col'' ''key_norm'' df of
                Inl e \<Rightarrow> Inl e
              | Inr long0 \<Rightarrow> Inr (dedup_keys uniq long0, descriptor_cols))"


section \<open>Year extraction (year_from_filename)\<close>

definition is_digit :: "char \<Rightarrow> bool" where
  "is_digit c \<longleftrightarrow> c \<in> set ''0123456789''"

definition is_year :: "string \<Rightarrow> bool" where
  \<comment> \<open>a match of the pattern \<^verbatim>\<open>20\d{2}\<close>\<close>
  "is_year y \<longleftrightarrow>
     (case y of [a, b, c, d] \<Rightarrow> a = CHR ''2'' \<and> b = CHR ''0'' \<and> is_digit c \<and> is_digit d
      | _ \<Rightarrow> False)"

fun re_search_year :: "string \<Rightarrow> string option" where
  \<comment> \<open>\<^verbatim>\<open>re.search(r"(20\d{2})", s)\<close>: the leftmost match, or none\<close>
  "re_search_year [] = None"
| "re_search_year (c # cs) =
     (if is_year (take 4 (c # cs)) then Some (take 4 (c # cs)) else re_search_year cs)"

definition basename :: "string \<Rightarrow> string" where
  \<comment> \<open>\<^verbatim>\<open>os.path.basename\<close>: what follows the last slash\<close>
  "basename p = rev (takeWhile (\<lambda>c. c \<noteq> CHR ''/'') (rev p))"

definition year_from_filename :: "string \<Rightarrow> error + string" where
  "year_from_filename p =
     (case re_search_year (basename p) of
        None \<Rightarrow> Inl (YearNotFound p)
      | Some y \<Rightarrow> Inr y)"


section \<open>Schema unifier and row enricher (build_lazy_for_csv)\<close>

definition select_superset :: "string list \<Rightarrow> frame \<Rightarrow> frame" where
  \<comment> \<open>the projection of lines 113 to 121: a column the file has is cast to text, a column it
      lacks is a null text column\<close>
  "select_superset superset_cols lf =
     \<lparr>columns = superset_cols,
      rows = map (\<lambda>r. map (\<lambda>c. (c, if c \<in> set (columns lf)
                                      then map_option VStr (cast_utf8 (cell r c))
                                      else None)) superset_cols) (rows lf)\<rparr>"

definition id_expr :: "row \<Rightarrow> cell" where
  \<comment> \<open>\<^verbatim>\<open>col("ano") + lit("-") + col("row_number").cast(Utf8).str.zfill(8)\<close>\<close>
  "id_expr r =
     (case (cell r ''ano'', cast_utf8 (cell r ''row_number'')) of
        (Some (VStr a), Some n) \<Rightarrow> Some (VStr (a @ ''-'' @ zfill 8 n))
      | _ \<Rightarrow> None)"

definition build_lazy_for_csv ::
  "string \<Rightarrow> string list \<Rightarrow> frame \<Rightarrow> frame \<Rightarrow> error + lazy_frame" where
  \<comment> \<open>\<open>scanned\<close> is the file as \<^verbatim>\<open>pl.scan_csv\<close> reads it. The outer error is the
      exception the function raises itself, the inner one belongs to the plan it returns\<close>
  "build_lazy_for_csv path superset_cols scanned dict_map =
     (case year_from_filename path of
        Inl e \<Rightarrow> Inl e
      | Inr ano \<Rightarrow>
          Inr (let lf1 = select_superset superset_cols scanned;
                   lf2 = with_columns ''ano'' (\<lambda>r. Some (VStr ano)) lf1
               in case with_row_index ''row_number'' 1 lf2 of
                    Inl e \<Rightarrow> Inl e
                  | Inr lf3 \<Rightarrow>
                      let lf4 = with_columns ''ID'' id_expr lf3
                      in if ''PRINCIPIO_ATIVO'' \<in> set superset_cols
                         then join_left
                                (with_columns ''key_norm''
                                   (\<lambda>r. normalize_key_expr (cell r ''PRINCIPIO_ATIVO'')) lf4)
                                dict_map ''key_norm''
                         else Inr (with_columns ''key_norm'' (\<lambda>r. None) lf4)))"


section \<open>Consolidator (main)\<close>

text \<open>
  One source file as the run sees it: its path, the column names \<^verbatim>\<open>read_header\<close> returns
  for it, and the frame \<^verbatim>\<open>pl.scan_csv\<close> reads from it.
\<close>

record csv_file =
  path :: string
  header :: "string list"
  scanned :: frame

fun build_all :: "string list \<Rightarrow> frame \<Rightarrow> csv_file list \<Rightarrow> error + lazy_frame list" where
  \<comment> \<open>the loop of lines 181 to 184\<close>
  "build_all superset_cols dict_map [] = Inr []"
| "build_all superset_cols dict_map (f # fs) =
     (case build_lazy_for_csv (path f) superset_cols (scanned f) dict_map of
        Inl e \<Rightarrow> Inl e
      | Inr lf \<Rightarrow>
          (case build_all superset_cols dict_map fs of
             Inl e \<Rightarrow> Inl e
           | Inr lfs \<Rightarrow> Inr (lf # lfs)))"

fun collect_all :: "lazy_frame list \<Rightarrow> error + frame list" where
  "collect_all [] = Inr []"
| "collect_all (Inl e # lfs) = Inl e"
| "collect_all (Inr fr # lfs) =
     (case collect_all lfs of Inl e \<Rightarrow> Inl e | Inr frs \<Rightarrow> Inr (fr # frs))"

definition concat_frames :: "lazy_frame list \<Rightarrow> lazy_frame" where
  \<comment> \<open>\<^verbatim>\<open>pl.concat(frames, how="vertical_relaxed")\<close>\<close>
  "concat_frames lfs =
     (case collect_all lfs of
        Inl e \<Rightarrow> Inl e
      | Inr [] \<Rightarrow> Inl NoFiles
      | Inr (fr # frs) \<Rightarrow>
          if list_all (\<lambda>g. columns g = columns fr) frs
          then Inr \<lparr>columns = columns fr, rows = concat (map rows (fr # frs))\<rparr>
          else Inl SchemaMismatch)"

definition reorder :: "string list \<Rightarrow> frame \<Rightarrow> frame" where
  \<comment> \<open>\<^verbatim>\<open>select([*first_order, pl.all().exclude(first_order)])\<close>\<close>
  "reorder first_order fr =
     \<lparr>columns = first_order @ filter (\<lambda>c. c \<notin> set first_order) (columns fr),
      rows = map (\<lambda>r. map (\<lambda>c. (c, cell r c)) first_order @
                      filter (\<lambda>(c, v). c \<notin> set first_order) r) (rows fr)\<rparr>"

definition unmatched_report :: "frame \<Rightarrow> error + (cell \<times> nat) list" where
  \<comment> \<open>lines 214 to 224: the rows whose \<^verbatim>\<open>key_norm\<close> is null, counted for each value of
      \<^verbatim>\<open>ano\<close>; the plan fails when the frame has no column \<^verbatim>\<open>key_norm\<close>\<close>
  "unmatched_report fr =
     (if ''key_norm'' \<notin> set (columns fr) then Inl (ColumnNotFound ''key_norm'')
      else if ''ano'' \<notin> set (columns fr) then Inl (ColumnNotFound ''ano'')
      else let un = filter (\<lambda>r. cell r ''key_norm'' = None) (rows fr)
           in Inr (map (\<lambda>a. (a, length (filter (\<lambda>r. cell r ''ano'' = a) un)))
                     (remdups (map (\<lambda>r. cell r ''ano'') un))))"

definition cols_to_drop :: "string list" where
  "cols_to_drop = [''ANO_VENDA'', ''row_number'', ''key_norm'', ''_duplicated_0'']"

text \<open>
  A run returns the frame written to the Parquet file and what became of the report of
  unmatched rows: \<open>None\<close> when it is not attempted, \<open>Some (Inl e)\<close> when it fails and only a
  warning is printed, \<open>Some (Inr counts)\<close> when the auxiliary file is written.
\<close>

definition superset_of :: "csv_file list \<Rightarrow> string list" where
  \<comment> \<open>\<^verbatim>\<open>sorted(col_set)\<close>, the set being the union of the files' header columns\<close>
  "superset_of files = sort (remdups (concat (map header files)))"

definition union_frames ::
  "(row list \<Rightarrow> row list) \<Rightarrow> frame \<Rightarrow> csv_file list \<Rightarrow> error + string list \<times> frame" where
  \<comment> \<open>lines 159 to 187 of \<^verbatim>\<open>main\<close>: the superset columns and the concatenated frame\<close>
  "union_frames uniq dict_df input_files =
     (let files = sort_key path input_files
      in if files = [] then Inl NoFiles
         else case build_dict_table uniq dict_df of
           Inl e \<Rightarrow> Inl e
         | Inr (dict_map, descriptor_cols) \<Rightarrow>
           (case filter (\<lambda>f. header f = []) files of
              f # _ \<Rightarrow> Inl (EmptyHeader (path f))
            | [] \<Rightarrow>
              (case build_all (superset_of files) dict_map files of
                 Inl e \<Rightarrow> Inl e
               | Inr lazy_frames \<Rightarrow>
                 (case concat_frames lazy_frames of
                    Inl e \<Rightarrow> Inl e
                  | Inr all_lf \<Rightarrow> Inr (superset_of files, all_lf)))))"

definition main ::
  "(row list \<Rightarrow> row list) \<Rightarrow> frame \<Rightarrow> csv_file list \<Rightarrow>
     error + frame \<times> (error + (cell \<times> nat) list) option" where
  \<comment> \<open>lines 189 to 228 follow the concatenation\<close>
  "main uniq dict_df input_files =
     (case union_frames uniq dict_df input_files of
        Inl e \<Rightarrow> Inl e
      | Inr (superset_cols, all_lf) \<Rightarrow>
          let drop_existing = filter (\<lambda>c. c \<in> set (columns all_lf)) cols_to_drop;
              all_lf1 = (if drop_existing \<noteq> [] then drop_columns drop_existing all_lf
                         else all_lf);
              first_order = filter (\<lambda>c. c \<in> set (columns all_lf1))
                              [''ID'', ''ano'', ''DESCRICAO_APRESENTACAO''];
              all_lf2 = (if first_order \<noteq> [] then reorder first_order all_lf1
                         else all_lf1)
          in Inr (all_lf2,
                  if ''PRINCIPIO_ATIVO'' \<in> set superset_cols
                  then Some (unmatched_report all_lf2) else None))"


section \<open>Concrete inputs\<close>

definition text_frame :: "string list \<Rightarrow> string option list list \<Rightarrow> frame" where
  \<comment> \<open>a frame of text columns, written row by row\<close>
  "text_frame cs vss =
     \<lparr>columns = cs, rows = map (\<lambda>vs. zip cs (map (map_option VStr) vs)) vss\<rparr>"

text \<open>
  The scenario of the specification: two yearly files of three and two rows, and a dictionary
  of one entry that matches the second row of 2020 and the first row of 2021.
\<close>

definition scenario_dict :: frame where
  "scenario_dict =
     text_frame [''PRINCIPIO_ATIVO'', ''CLASSE''] [[Some ''Dipirona'', Some ''ANALGESICO'']]"

definition scenario_map :: frame where
  \<comment> \<open>the mapping \<^verbatim>\<open>build_dict_table\<close> makes of that dictionary\<close>
  "scenario_map =
     text_frame [''CLASSE'', ''key_norm''] [[Some ''ANALGESICO'', Some ''DIPIRONA'']]"

definition grouped_2020 :: csv_file where
  "grouped_2020 =
     \<lparr>path = ''in/grouped_2020.csv'', header = [''PRINCIPIO_ATIVO'', ''QTD''],
      scanned = text_frame [''PRINCIPIO_ATIVO'', ''QTD'']
        [[Some ''AMOXICILINA'', Some ''1''],
         [Some '' dipirona '', Some ''2''],
         [Some ''IBUPROFENO'', Some ''3'']]\<rparr>"

definition grouped_2021 :: csv_file where
  "grouped_2021 =
     \<lparr>path = ''in/grouped_2021.csv'', header = [''PRINCIPIO_ATIVO'', ''QTD''],
      scanned = text_frame [''PRINCIPIO_ATIVO'', ''QTD'']
        [[Some ''DIPIRONA'', Some ''4''],
         [Some ''NIMESULIDA'', Some ''5'']]\<rparr>"


text \<open>A file whose base name holds no year; its directory does.\<close>

definition grouped_noyear :: csv_file where
  "grouped_noyear =
     \<lparr>path = ''in2020/grouped_abc.csv'', header = [''PRINCIPIO_ATIVO''],
      scanned = text_frame [''PRINCIPIO_ATIVO''] [[Some ''DIPIRONA'']]\<rparr>"


section \<open>Properties of the key normalizer\<close>

lemma is_space_upper_char [simp]: "is_space (upper_char c) = is_space c"
  by (auto simp: is_space_def upper_char_def)

lemma upper_char_idem [simp]: "upper_char (upper_char c) = upper_char c"
  by (auto simp: upper_char_def)

lemma upper_char_space [simp]: "upper_char (CHR '' '') = CHR '' ''"
  by (simp add: upper_char_def)







lemma dropWhile_keeps_last:
  "s \<noteq> [] \<Longrightarrow> \<not> P (last s) \<Longrightarrow> dropWhile P s \<noteq> [] \<and> last (dropWhile P s) = last s"
  by (induction s) (auto split: if_splits)

lemma trimmed_strip: "trimmed (strip_chars s)"
proof -
  define v where "v = dropWhile is_space s"
  define w where "w = dropWhile is_space (rev v)"
  have v: "v = [] \<or> \<not> is_space (hd v)"
    unfolding v_def using hd_dropWhile [of is_space s] by blast
  have w: "w = [] \<or> \<not> is_space (hd w)"
    unfolding w_def using hd_dropWhile [of is_space "rev v"] by blast
  have res: "strip_chars s = rev w"
    by (simp add: strip_chars_def v_def w_def)
  show ?thesis
  proof (cases "w = []")
    case True
    then show ?thesis by (simp add: res trimmed_def)
  next
    case False
    then have "rev v \<noteq> []" by (auto simp: w_def)
    have "\<exists>us. rev v = us @ w"
      unfolding w_def by (metis takeWhile_dropWhile_id)
    then obtain us where us: "rev v = us @ w" ..
    with False have "last (rev v) = last w" by simp
    moreover have "last (rev v) = hd v"
      using \<open>rev v \<noteq> []\<close> by (simp add: last_rev)
    ultimately have "\<not> is_space (last w)"
      using v \<open>rev v \<noteq> []\<close> by auto
    moreover have "\<not> is_space (hd w)" using w False by simp
    ultimately show ?thesis
      using False by (simp add: res trimmed_def hd_rev last_rev)
  qed
qed


lemma replace_keeps_last:
  "s \<noteq> [] \<Longrightarrow> \<not> is_space (last s) \<Longrightarrow>
     str_replace_ws s \<noteq> [] \<and> last (str_replace_ws s) = last s"
proof (induction s)
  case Nil
  then show ?case by simp
next
  case (Cons c cs)
  show ?case
  proof (cases "is_space c")
    case True
    with Cons.prems have "cs \<noteq> []" by auto
    with Cons.prems have "\<not> is_space (last cs)" by simp
    with \<open>cs \<noteq> []\<close>
    have d: "dropWhile is_space cs \<noteq> [] \<and> last (dropWhile is_space cs) = last cs"
      by (rule dropWhile_keeps_last)
    have "str_replace_ws (c # cs) = CHR '' '' # dropWhile is_space cs"
      using True by simp
    with d \<open>cs \<noteq> []\<close> show ?thesis
      by (auto simp del: str_replace_ws.simps)
  next
    case False
    with Cons show ?thesis by (cases cs) auto
  qed
qed

lemma trimmed_replace: "trimmed s \<Longrightarrow> trimmed (str_replace_ws s)"
proof (cases s)
  case Nil
  then show ?thesis by (simp add: trimmed_def)
next
  case (Cons c cs)
  assume "trimmed s"
  with Cons have c: "\<not> is_space c" and l: "\<not> is_space (last s)"
    by (simp_all add: trimmed_def)
  from Cons l have "last (str_replace_ws s) = last s"
    using replace_keeps_last [of s] by simp
  with Cons c l show ?thesis by (simp add: trimmed_def)
qed

lemma normalize_key_trimmed: "trimmed (normalize_key s)"
  by (simp add: normalize_key_def trimmed_replace trimmed_strip)


text \<open>
  Claim C1. The join-key normalizer is said to upper-case, trim, and collapse every interior
  run of white space to one space. On the spec's example the code does so, and the two example
  spellings receive the same key. In general it does not: \<^verbatim>\<open>str.replace\<close> rewrites the
  first run only, so in \<^verbatim>\<open>"A  B  C"\<close> the second run of two spaces survives, where the
  normalization the claim describes gives \<^verbatim>\<open>"A B C"\<close>.
\<close>

theorem normalize_key_first_run_only:
  "normalize_key ''A  B  C'' = ''A B  C''
   \<and> spec_normalize_key ''A  B  C'' = ''A B C''
   \<and> normalize_key ''A  B  C'' \<noteq> spec_normalize_key ''A  B  C''
   \<and> normalize_key '' Amoxicilina  500mg '' = ''AMOXICILINA 500MG''
   \<and> normalize_key ''AMOXICILINA 500MG'' = ''AMOXICILINA 500MG''"
  by (simp add: normalize_key_def spec_normalize_key_def strip_chars_def to_uppercase_def
      upper_char_def is_space_def)




section \<open>Properties of the frame operations\<close>

lemma cell_update_same: "cell (AList.update k v r) k = v"
  by (simp add: cell_def update_conv')

lemma cell_update_other: "c \<noteq> k \<Longrightarrow> cell (AList.update k v r) c = cell r c"
  by (simp add: cell_def update_conv')

lemma cell_Cons: "cell ((k, v) # r) c = (if c = k then v else cell r c)"
  by (simp add: cell_def)

lemma cell_append_left: "c \<in> set (map fst l) \<Longrightarrow> cell (l @ x) c = cell l c"
proof -
  assume "c \<in> set (map fst l)"
  then obtain v where "map_of l c = Some v"
    by (metis list.set_map map_of_eq_None_iff not_Some_eq)
  then show ?thesis by (simp add: cell_def map_add_def)
qed

lemma cell_append_right: "c \<notin> set (map fst l) \<Longrightarrow> cell (l @ x) c = cell x c"
proof -
  assume "c \<notin> set (map fst l)"
  then have "map_of l c = None"
    by (simp add: map_of_eq_None_iff)
  then show ?thesis by (simp add: cell_def map_add_def split: option.splits)
qed

lemma cell_filter_keep: "c \<notin> set cs \<Longrightarrow> cell (filter (\<lambda>(k, v). k \<notin> set cs) r) c = cell r c"
  by (induction r) (auto simp: cell_def)

lemma map_fst_update:
  "map fst (AList.update k v r) = (if k \<in> set (map fst r) then map fst r else map fst r @ [k])"
  by (induction r) auto

lemma shaped_with_columns: "shaped fr \<Longrightarrow> shaped (with_columns name f fr)"
  by (auto simp: shaped_def with_columns_def list_all_iff map_fst_update)

lemma shaped_select_superset: "shaped (select_superset scs lf)"
  by (simp add: shaped_def select_superset_def list_all_iff comp_def)

lemma with_row_index_Inr:
  assumes "with_row_index name off fr = Inr out"
  shows "columns out = name # columns fr"
    and "length (rows out) = length (rows fr)"
    and "\<And>i. i < length (rows fr) \<Longrightarrow> rows out ! i = (name, Some (VInt (int (off + i)))) # rows fr ! i"
    and "name \<notin> set (columns fr)"
  using assms by (auto simp: with_row_index_def split: if_splits)

lemma shaped_with_row_index:
  "with_row_index name off fr = Inr out \<Longrightarrow> shaped fr \<Longrightarrow> shaped out"
proof -
  assume a: "with_row_index name off fr = Inr out" and s: "shaped fr"
  from a have c: "columns out = name # columns fr"
    and r: "rows out = map (\<lambda>(i, r). (name, Some (VInt (int (off + i)))) # r)
                         (zip [0 ..< length (rows fr)] (rows fr))"
    by (auto simp: with_row_index_def split: if_splits)
  have "map fst r' = columns out" if "r' \<in> set (rows out)" for r'
  proof -
    from that r obtain i r0 where "(i, r0) \<in> set (zip [0 ..< length (rows fr)] (rows fr))"
      and r': "r' = (name, Some (VInt (int (off + i)))) # r0"
      by auto
    then have "r0 \<in> set (rows fr)" by (meson set_zip_rightD)
    with s have "map fst r0 = columns fr" by (simp add: shaped_def list_all_iff)
    with r' c show ?thesis by simp
  qed
  then show ?thesis by (simp add: shaped_def list_all_iff)
qed

lemma with_columns_rows:
  "length (rows (with_columns name f fr)) = length (rows fr)"
  "i < length (rows fr) \<Longrightarrow> rows (with_columns name f fr) ! i = AList.update name (f (rows fr ! i)) (rows fr ! i)"
  by (simp_all add: with_columns_def)

lemma with_columns_columns:
  "set (columns (with_columns name f fr)) = insert name (set (columns fr))"
  by (auto simp: with_columns_def)

lemma filter_distinct_key:
  "distinct (map f xs) \<Longrightarrow> filter (\<lambda>x. P \<and> f x = v) xs = [] \<or> (\<exists>d. filter (\<lambda>x. P \<and> f x = v) xs = [d])"
proof (induction xs)
  case Nil
  then show ?case by simp
next
  case (Cons x xs)
  show ?case
  proof (cases "P \<and> f x = v")
    case True
    from Cons.prems have "f x \<notin> f ` set xs" by simp
    with True have "\<forall>y\<in>set xs. f y \<noteq> v" by blast
    then have "filter (\<lambda>x. P \<and> f x = v) xs = []" by (simp add: filter_empty_conv)
    with True show ?thesis by simp
  next
    case False
    from Cons.prems have "distinct (map f xs)" by simp
    from Cons.IH [OF this] False show ?thesis by auto
  qed
qed

lemma join_row_single:
  assumes "distinct (map (\<lambda>rr. cell rr key) rrows)"
  shows "\<exists>ext. join_row rnames rcols key rrows lr = [lr @ ext]
     \<and> (\<forall>d\<in>set rrows. cell lr key \<noteq> None \<and> cell d key = cell lr key \<longrightarrow> ext = zip rnames (map (cell d) rcols))
     \<and> ((\<forall>d\<in>set rrows. cell lr key = None \<or> cell d key \<noteq> cell lr key) \<longrightarrow> ext = map (\<lambda>c. (c, None)) rnames)"
proof -
  define ms where "ms = filter (\<lambda>rr. cell lr key \<noteq> None \<and> cell rr key = cell lr key) rrows"
  have mem: "d \<in> set ms \<longleftrightarrow> d \<in> set rrows \<and> cell lr key \<noteq> None \<and> cell d key = cell lr key" for d
    by (simp add: ms_def)
  from filter_distinct_key [OF assms, of "cell lr key \<noteq> None" "cell lr key"]
  consider "ms = []" | d where "ms = [d]" unfolding ms_def by blast
  then show ?thesis
  proof cases
    case 1
    have jr: "join_row rnames rcols key rrows lr = [lr @ map (\<lambda>c. (c, None)) rnames]"
      using 1 unfolding join_row_def ms_def [symmetric] by simp
    from 1 mem have none: "\<forall>d\<in>set rrows. \<not> (cell lr key \<noteq> None \<and> cell d key = cell lr key)"
      by simp
    show ?thesis
    proof (intro exI conjI)
      show "join_row rnames rcols key rrows lr = [lr @ map (\<lambda>c. (c, None)) rnames]" by (rule jr)
      show "\<forall>d\<in>set rrows. cell lr key \<noteq> None \<and> cell d key = cell lr key \<longrightarrow>
              map (\<lambda>c. (c, None)) rnames = zip rnames (map (cell d) rcols)"
        using none by blast
      show "(\<forall>d\<in>set rrows. cell lr key = None \<or> cell d key \<noteq> cell lr key) \<longrightarrow>
              map (\<lambda>c. (c, None)) rnames = map (\<lambda>c. (c, None)) rnames" by simp
    qed
  next
    case 2
    have jr: "join_row rnames rcols key rrows lr = [lr @ zip rnames (map (cell d) rcols)]"
      using 2 unfolding join_row_def ms_def [symmetric] by simp
    from 2 have s: "\<And>d'. d' \<in> set ms \<longleftrightarrow> d' = d" by simp
    show ?thesis
    proof (intro exI conjI)
      show "join_row rnames rcols key rrows lr = [lr @ zip rnames (map (cell d) rcols)]" by (rule jr)
      show "\<forall>d'\<in>set rrows. cell lr key \<noteq> None \<and> cell d' key = cell lr key \<longrightarrow>
              zip rnames (map (cell d) rcols) = zip rnames (map (cell d') rcols)"
      proof (intro ballI impI)
        fix d' assume "d' \<in> set rrows" and "cell lr key \<noteq> None \<and> cell d' key = cell lr key"
        then have "d' \<in> set rrows \<and> cell lr key \<noteq> None \<and> cell d' key = cell lr key" ..
        then have "d' \<in> set ms" by (rule iffD2 [OF mem])
        then have "d' = d" by (simp only: s)
        then show "zip rnames (map (cell d) rcols) = zip rnames (map (cell d') rcols)" by simp
      qed
      show "(\<forall>d\<in>set rrows. cell lr key = None \<or> cell d key \<noteq> cell lr key) \<longrightarrow>
              zip rnames (map (cell d) rcols) = map (\<lambda>c. (c, None)) rnames"
      proof
        assume a: "\<forall>d\<in>set rrows. cell lr key = None \<or> cell d key \<noteq> cell lr key"
        have "d \<in> set ms" by (simp only: s)
        then have "d \<in> set rrows \<and> cell lr key \<noteq> None \<and> cell d key = cell lr key"
          by (rule iffD1 [OF mem])
        with a have False by (elim conjE) (drule (1) bspec, simp)
        then show "zip rnames (map (cell d) rcols) = map (\<lambda>c. (c, None)) rnames" ..
      qed
    qed
  qed
qed

lemma distinct_count_list:
  "(\<forall>c\<in>set xs. \<not> count_list xs c > 1) \<Longrightarrow> distinct xs"
proof (induction xs)
  case Nil
  show ?case by simp
next
  case (Cons x xs)
  from Cons.prems have "\<not> count_list (x # xs) x > 1" by simp
  then have "count_list xs x = 0" by simp
  then have nx: "x \<notin> set xs" by (simp add: count_list_0_iff)
  have "\<forall>c\<in>set xs. \<not> count_list xs c > 1"
  proof
    fix c assume c: "c \<in> set xs"
    with Cons.prems have "\<not> count_list (x # xs) c > 1" by simp
    then show "\<not> count_list xs c > 1" by (simp split: if_splits)
  qed
  with Cons.IH nx show ?case by simp
qed

lemma join_left_Inr:
  assumes "join_left l r key = Inr out"
  defines "rcols \<equiv> filter (\<lambda>c. c \<noteq> key) (columns r)"
  defines "rnames \<equiv> map (right_name (columns l)) rcols"
  shows "columns out = columns l @ rnames"
    and "rows out = concat (map (join_row rnames rcols key (rows r)) (rows l))"
    and "set rnames \<inter> set (columns l) = {}"
    and "distinct rnames"
proof -
  let ?bad = "filter (\<lambda>c. c \<in> set (columns l)) rnames @ filter (\<lambda>c. count_list rnames c > 1) rnames"
  from assms(1) have bad: "?bad = []" and
    out: "out = \<lparr>columns = columns l @ rnames,
                  rows = concat (map (join_row rnames rcols key (rows r)) (rows l))\<rparr>"
    unfolding join_left_def rcols_def rnames_def Let_def
    by (auto split: list.splits)
  from out show "columns out = columns l @ rnames" by simp
  from out show "rows out = concat (map (join_row rnames rcols key (rows r)) (rows l))" by simp
  from bad have a: "\<forall>c\<in>set rnames. c \<notin> set (columns l)"
    and b: "\<forall>c\<in>set rnames. \<not> count_list rnames c > 1"
    by (simp_all add: filter_empty_conv)
  from a show "set rnames \<inter> set (columns l) = {}" by blast
  from b show "distinct rnames" by (rule distinct_count_list)
qed

lemma concat_join_rows:
  assumes "distinct (map (\<lambda>rr. cell rr key) rrows)"
  shows "list_all2 (\<lambda>lr orow. \<exists>ext. orow = lr @ ext
     \<and> (\<forall>d\<in>set rrows. cell lr key \<noteq> None \<and> cell d key = cell lr key \<longrightarrow> ext = zip rnames (map (cell d) rcols))
     \<and> ((\<forall>d\<in>set rrows. cell lr key = None \<or> cell d key \<noteq> cell lr key) \<longrightarrow> ext = map (\<lambda>c. (c, None)) rnames))
     ls (concat (map (join_row rnames rcols key rrows) ls))"
proof (induction ls)
  case Nil
  show ?case by simp
next
  case (Cons lr ls)
  from join_row_single [OF assms, of rnames rcols lr]
  obtain ext where jr: "join_row rnames rcols key rrows lr = [lr @ ext]"
    and p: "\<forall>d\<in>set rrows. cell lr key \<noteq> None \<and> cell d key = cell lr key \<longrightarrow> ext = zip rnames (map (cell d) rcols)"
    and q: "(\<forall>d\<in>set rrows. cell lr key = None \<or> cell d key \<noteq> cell lr key) \<longrightarrow> ext = map (\<lambda>c. (c, None)) rnames"
    by blast
  have "concat (map (join_row rnames rcols key rrows) (lr # ls))
        = (lr @ ext) # concat (map (join_row rnames rcols key rrows) ls)"
    by (simp add: jr)
  moreover have "\<exists>e. lr @ ext = lr @ e
     \<and> (\<forall>d\<in>set rrows. cell lr key \<noteq> None \<and> cell d key = cell lr key \<longrightarrow> e = zip rnames (map (cell d) rcols))
     \<and> ((\<forall>d\<in>set rrows. cell lr key = None \<or> cell d key \<noteq> cell lr key) \<longrightarrow> e = map (\<lambda>c. (c, None)) rnames)"
    using p q by (intro exI [of _ ext]) simp
  ultimately show ?case using Cons.IH by (simp only: list_all2_Cons)
qed


lemma build_lazy_for_csv_left:
  assumes "build_lazy_for_csv p scs sc dm = Inr (Inr out)"
  shows "\<exists>ano lf. year_from_filename p = Inr ano \<and> shaped lf
     \<and> length (rows lf) = length (rows sc)
     \<and> set scs \<union> {''row_number'', ''ano'', ''ID'', ''key_norm''} \<subseteq> set (columns lf)
     \<and> (\<forall>i < length (rows sc).
           cell (rows lf ! i) ''row_number'' = Some (VInt (int (i + 1)))
         \<and> cell (rows lf ! i) ''ano'' = Some (VStr ano)
         \<and> cell (rows lf ! i) ''ID'' = Some (VStr (ano @ ''-'' @ zfill 8 (str_of_nat (i + 1))))
         \<and> cell (rows lf ! i) ''key_norm'' =
             (if ''PRINCIPIO_ATIVO'' \<in> set scs
              then normalize_key_expr (cell (rows lf ! i) ''PRINCIPIO_ATIVO'') else None))
     \<and> (if ''PRINCIPIO_ATIVO'' \<in> set scs then join_left lf dm ''key_norm'' = Inr out
         else out = lf)"
proof -
  from assms obtain ano where y: "year_from_filename p = Inr ano"
    by (auto simp: build_lazy_for_csv_def split: sum.splits)
  define lf1 where "lf1 = select_superset scs sc"
  define lf2 where "lf2 = with_columns ''ano'' (\<lambda>r. Some (VStr ano)) lf1"
  from assms y obtain lf3 where w: "with_row_index ''row_number'' 1 lf2 = Inr lf3"
    by (auto simp: build_lazy_for_csv_def Let_def lf1_def lf2_def split: sum.splits)
  define lf4 where "lf4 = with_columns ''ID'' id_expr lf3"
  define kf where "kf = (\<lambda>r. if ''PRINCIPIO_ATIVO'' \<in> set scs
                            then normalize_key_expr (cell r ''PRINCIPIO_ATIVO'') else None)"
  define lf5 where "lf5 = with_columns ''key_norm'' kf lf4"
  from assms y w have fin:
    "if ''PRINCIPIO_ATIVO'' \<in> set scs then join_left lf5 dm ''key_norm'' = Inr out else out = lf5"
    by (auto simp: build_lazy_for_csv_def Let_def lf1_def lf2_def lf4_def lf5_def kf_def
        split: sum.splits if_splits)
  have sh: "shaped lf5"
    unfolding lf5_def lf4_def
    by (intro shaped_with_columns shaped_with_row_index [OF w])
       (simp add: lf2_def lf1_def shaped_with_columns shaped_select_superset)
  have len1: "length (rows lf1) = length (rows sc)"
    by (simp add: lf1_def select_superset_def)
  have len2: "length (rows lf2) = length (rows sc)"
    by (simp add: lf2_def with_columns_rows len1)
  have len3: "length (rows lf3) = length (rows sc)"
    using with_row_index_Inr(2) [OF w] len2 by simp
  have len5: "length (rows lf5) = length (rows sc)"
    by (simp add: lf5_def lf4_def with_columns_rows len3)
  have "columns lf1 = scs" by (simp add: lf1_def select_superset_def)
  then have cols: "set scs \<union> {''row_number'', ''ano'', ''ID'', ''key_norm''} \<subseteq> set (columns lf5)"
    using with_row_index_Inr(1) [OF w]
    by (auto simp: lf5_def lf4_def lf2_def with_columns_columns)
  have cells: "cell (rows lf5 ! i) ''row_number'' = Some (VInt (int (i + 1)))
         \<and> cell (rows lf5 ! i) ''ano'' = Some (VStr ano)
         \<and> cell (rows lf5 ! i) ''ID'' = Some (VStr (ano @ ''-'' @ zfill 8 (str_of_nat (i + 1))))
         \<and> cell (rows lf5 ! i) ''key_norm'' =
             (if ''PRINCIPIO_ATIVO'' \<in> set scs
              then normalize_key_expr (cell (rows lf5 ! i) ''PRINCIPIO_ATIVO'') else None)"
    if i: "i < length (rows sc)" for i
  proof -
    define r2 where "r2 = rows lf2 ! i"
    define r3 where "r3 = rows lf3 ! i"
    define r4 where "r4 = rows lf4 ! i"
    have a2: "cell r2 ''ano'' = Some (VStr ano)"
      using i len1 by (simp add: r2_def lf2_def with_columns_rows cell_update_same)
    have e3: "r3 = (''row_number'', Some (VInt (int (1 + i)))) # r2"
      using with_row_index_Inr(3) [OF w, of i] i len2 by (simp add: r3_def r2_def)
    have n3: "cell r3 ''row_number'' = Some (VInt (int (1 + i)))"
      and a3: "cell r3 ''ano'' = Some (VStr ano)"
      by (simp_all add: e3 cell_Cons a2)
    have "nat (1 + int i) = Suc i" by simp
    then have id3: "id_expr r3 = Some (VStr (ano @ ''-'' @ zfill 8 (str_of_nat (i + 1))))"
      by (simp add: id_expr_def n3 a3 str_of_int_def)
    have e4: "r4 = AList.update ''ID'' (id_expr r3) r3"
      using i len3 by (simp add: r4_def r3_def lf4_def with_columns_rows)
    have e5: "rows lf5 ! i = AList.update ''key_norm'' (kf r4) r4"
      using i len3 by (simp add: r4_def lf5_def lf4_def with_columns_rows)
    have "cell (rows lf5 ! i) ''row_number'' = Some (VInt (int (i + 1)))"
      using n3 by (simp add: e5 e4 cell_update_other)
    moreover have "cell (rows lf5 ! i) ''ano'' = Some (VStr ano)"
      using a3 by (simp add: e5 e4 cell_update_other)
    moreover have "cell (rows lf5 ! i) ''ID'' = Some (VStr (ano @ ''-'' @ zfill 8 (str_of_nat (i + 1))))"
      using id3 by (simp add: e5 e4 cell_update_other cell_update_same)
    moreover have "cell (AList.update ''key_norm'' v r4) ''PRINCIPIO_ATIVO''
        = cell r4 ''PRINCIPIO_ATIVO''" for v
      by (simp add: cell_update_other)
    then have "cell (rows lf5 ! i) ''key_norm'' =
             (if ''PRINCIPIO_ATIVO'' \<in> set scs
              then normalize_key_expr (cell (rows lf5 ! i) ''PRINCIPIO_ATIVO'') else None)"
      by (simp add: e5 cell_update_same kf_def)
    ultimately show ?thesis by blast
  qed
  show ?thesis
    using y sh len5 cols cells fin by blast
qed


section \<open>Properties of the dictionary builder\<close>

lemma unpivot_Inr:
  assumes "unpivot index on vn valn fr = Inr out"
  shows "columns out = index @ [vn, valn]"
    and "vn \<notin> set index" and "valn \<notin> set index" and "vn \<noteq> valn"
    and "rows out = concat (map (\<lambda>a. map (\<lambda>r.
                      map (\<lambda>c. (c, cell r c)) index @
                      [(vn, Some (VStr a)), (valn, cell r a)]) (rows fr)) on)"
proof -
  let ?bad = "filter (\<lambda>c. c = vn \<or> c = valn) index @ (if vn = valn then [valn] else [])"
  from assms have bad: "?bad = []"
    and out: "out = \<lparr>columns = index @ [vn, valn],
             rows = concat (map (\<lambda>a. map (\<lambda>r.
                      map (\<lambda>c. (c, cell r c)) index @
                      [(vn, Some (VStr a)), (valn, cell r a)]) (rows fr)) on)\<rparr>"
    unfolding unpivot_def by (auto split: list.splits)
  from out show "columns out = index @ [vn, valn]" by simp
  from out show "rows out = concat (map (\<lambda>a. map (\<lambda>r.
                      map (\<lambda>c. (c, cell r c)) index @
                      [(vn, Some (VStr a)), (valn, cell r a)]) (rows fr)) on)" by simp
  from bad have "filter (\<lambda>c. c = vn \<or> c = valn) index = []" and ne: "vn \<noteq> valn"
    by (auto split: if_splits)
  then have "\<forall>c\<in>set index. \<not> (c = vn \<or> c = valn)" by (simp add: filter_empty_conv)
  then show "vn \<notin> set index" and "valn \<notin> set index" by blast+
  from ne show "vn \<noteq> valn" .
qed

lemma dedup_keys_props:
  assumes c: "unique_contract uniq"
    and cols: "columns long0 = dcs @ [''alias_col'', ''key_norm'']"
    and na: "''alias_col'' \<notin> set dcs"
  shows "columns (dedup_keys uniq long0) = dcs @ [''key_norm'']"
    and "distinct (map (\<lambda>d. cell d ''key_norm'') (rows (dedup_keys uniq long0)))"
    and "\<forall>d\<in>set (rows (dedup_keys uniq long0)).
           cell d ''key_norm'' \<noteq> None \<and> cell d ''key_norm'' \<noteq> Some (VStr [])"
proof -
  define long1 where "long1 = filter_rows (\<lambda>r. cell r ''key_norm'' \<noteq> None \<and>
                                               cell r ''key_norm'' \<noteq> Some (VStr [])) long0"
  have c1: "columns long1 = dcs @ [''alias_col'', ''key_norm'']"
    by (simp add: long1_def filter_rows_def cols)
  define rs where "rs = uniq (rows long1)"
  from c have ua: "unique_any ''key_norm'' (rows long1) rs"
    by (simp add: unique_contract_def rs_def)
  have dm': "dedup_keys uniq long0 = drop_columns [''alias_col''] (long1\<lparr>rows := rs\<rparr>)"
    unfolding dedup_keys_def long1_def [symmetric] Let_def rs_def [symmetric]
    by (simp add: c1)
  have keep: "cell (filter (\<lambda>(k, v). k \<notin> set [''alias_col'']) r) ''key_norm'' = cell r ''key_norm''" for r
    by (rule cell_filter_keep) simp
  have rows_dm: "rows (dedup_keys uniq long0) = map (filter (\<lambda>(k, v). k \<notin> set [''alias_col''])) rs"
    by (simp add: dm' drop_columns_def)
  have keys: "map (\<lambda>d. cell d ''key_norm'') (rows (dedup_keys uniq long0)) = map (\<lambda>d. cell d ''key_norm'') rs"
    unfolding rows_dm map_map comp_def keep ..
  show "columns (dedup_keys uniq long0) = dcs @ [''key_norm'']"
    using na by (auto simp: dm' drop_columns_def c1 filter_id_conv)
  show "distinct (map (\<lambda>d. cell d ''key_norm'') (rows (dedup_keys uniq long0)))"
    using ua unfolding keys unique_any_def by blast
  have f: "\<forall>r\<in>set (rows long1). cell r ''key_norm'' \<noteq> None \<and> cell r ''key_norm'' \<noteq> Some (VStr [])"
    unfolding long1_def filter_rows_def by simp
  from ua have "set rs \<subseteq> set (rows long1)" unfolding unique_any_def by blast
  with f have g: "\<forall>r\<in>set rs. cell r ''key_norm'' \<noteq> None \<and> cell r ''key_norm'' \<noteq> Some (VStr [])"
    by blast
  show "\<forall>d\<in>set (rows (dedup_keys uniq long0)).
           cell d ''key_norm'' \<noteq> None \<and> cell d ''key_norm'' \<noteq> Some (VStr [])"
  proof
    fix d assume "d \<in> set (rows (dedup_keys uniq long0))"
    then obtain r where r: "r \<in> set rs" and d: "d = filter (\<lambda>(k, v). k \<notin> set [''alias_col'']) r"
      unfolding rows_dm by auto
    from g r have "cell r ''key_norm'' \<noteq> None \<and> cell r ''key_norm'' \<noteq> Some (VStr [])" ..
    then show "cell d ''key_norm'' \<noteq> None \<and> cell d ''key_norm'' \<noteq> Some (VStr [])"
      unfolding d keep .
  qed
qed

lemma build_dict_table_Inr:
  assumes c: "unique_contract uniq"
    and b: "build_dict_table uniq df = Inr (dm, dcs)"
  shows "columns dm = dcs @ [''key_norm'']"
    and "''key_norm'' \<notin> set dcs"
    and "distinct (map (\<lambda>d. cell d ''key_norm'') (rows dm))"
    and "\<forall>d\<in>set (rows dm). cell d ''key_norm'' \<noteq> None \<and> cell d ''key_norm'' \<noteq> Some (VStr [])"
proof -
  from b obtain on df2 long0 where
    u: "unpivot dcs on ''alias_col'' ''key_norm'' df2 = Inr long0"
    and dm: "dm = dedup_keys uniq long0"
    by (auto simp: build_dict_table_def Let_def split: if_splits sum.splits)
  note up = unpivot_Inr [OF u]
  note dd = dedup_keys_props [OF c up(1) up(2)]
  show "columns dm = dcs @ [''key_norm'']" unfolding dm by (rule dd(1))
  show "''key_norm'' \<notin> set dcs" by (rule up(3))
  show "distinct (map (\<lambda>d. cell d ''key_norm'') (rows dm))" unfolding dm by (rule dd(2))
  show "\<forall>d\<in>set (rows dm). cell d ''key_norm'' \<noteq> None \<and> cell d ''key_norm'' \<noteq> Some (VStr [])"
    unfolding dm by (rule dd(3))
qed

lemma keep_first_by_props:
  "distinct (map f (keep_first_by f xs)) \<and> set (keep_first_by f xs) \<subseteq> set xs
   \<and> f ` set xs \<subseteq> f ` set (keep_first_by f xs)"
proof (induction f xs rule: keep_first_by.induct)
  case (1 f)
  show ?case by simp
next
  case (2 f x xs)
  let ?ys = "filter (\<lambda>y. f y \<noteq> f x) xs"
  from 2 have d: "distinct (map f (keep_first_by f ?ys))"
    and s: "set (keep_first_by f ?ys) \<subseteq> set ?ys"
    and k: "f ` set ?ys \<subseteq> f ` set (keep_first_by f ?ys)"
    by blast+
  from s have nx: "f x \<notin> f ` set (keep_first_by f ?ys)" by auto
  have "f ` set (x # xs) \<subseteq> insert (f x) (f ` set ?ys)" by auto
  with k have k': "f ` set (x # xs) \<subseteq> f ` set (keep_first_by f (x # xs))" by auto
  from s have s': "set (keep_first_by f (x # xs)) \<subseteq> set (x # xs)" by auto
  from d nx have "distinct (map f (keep_first_by f (x # xs)))" by simp
  with s' k' show ?case by blast
qed

lemma keep_first_contract: "unique_contract keep_first"
  unfolding unique_contract_def unique_any_def keep_first_def
  using keep_first_by_props [of "\<lambda>r. cell r ''key_norm''"] by (simp add: image_subset_iff)



section \<open>Properties of the year extraction\<close>

lemma is_year_length: "is_year y \<Longrightarrow> length y = 4"
  by (auto simp: is_year_def split: list.splits)

lemma re_search_year_None:
  "re_search_year s = None \<longleftrightarrow> \<not> (\<exists>pre y post. s = pre @ y @ post \<and> is_year y)"
proof (induction s)
  case Nil
  have "\<not> is_year []" by (simp add: is_year_def)
  then show ?case by auto
next
  case (Cons c cs)
  show ?case
  proof (cases "is_year (take 4 (c # cs))")
    case True
    have "c # cs = [] @ take 4 (c # cs) @ drop 4 (c # cs)" by simp
    with True have "\<exists>pre y post. c # cs = pre @ y @ post \<and> is_year y" by blast
    with True show ?thesis by simp
  next
    case False
    have "(\<exists>pre y post. c # cs = pre @ y @ post \<and> is_year y)
          \<longleftrightarrow> (\<exists>pre y post. cs = pre @ y @ post \<and> is_year y)"
    proof
      assume "\<exists>pre y post. c # cs = pre @ y @ post \<and> is_year y"
      then obtain pre y post where e: "c # cs = pre @ y @ post" and y: "is_year y" by blast
      have "pre \<noteq> []"
      proof
        assume "pre = []"
        with e y have "take 4 (c # cs) = y" using is_year_length [OF y] by simp
        with y False show False by simp
      qed
      then obtain pre' where "pre = c # pre'" using e by (cases pre) auto
      with e have "cs = pre' @ y @ post" by simp
      with y show "\<exists>pre y post. cs = pre @ y @ post \<and> is_year y" by blast
    next
      assume "\<exists>pre y post. cs = pre @ y @ post \<and> is_year y"
      then obtain pre y post where "cs = pre @ y @ post" and y: "is_year y" by blast
      then have "c # cs = (c # pre) @ y @ post" by simp
      with y show "\<exists>pre y post. c # cs = pre @ y @ post \<and> is_year y" by blast
    qed
    with False Cons.IH show ?thesis by simp
  qed
qed

lemma re_search_year_Some:
  "re_search_year s = Some y \<Longrightarrow>
     \<exists>pre post. s = pre @ y @ post \<and> is_year y \<and>
       (\<forall>pre' y' post'. s = pre' @ y' @ post' \<and> is_year y' \<longrightarrow> length pre \<le> length pre')"
proof (induction s)
  case Nil
  then show ?case by simp
next
  case (Cons c cs)
  show ?case
  proof (cases "is_year (take 4 (c # cs))")
    case True
    with Cons.prems have y: "y = take 4 (c # cs)" by simp
    then have "c # cs = [] @ y @ drop 4 (c # cs)" by simp
    moreover from True y have "is_year y" by simp
    ultimately show ?thesis by (metis list.size(3) le0)
  next
    case False
    with Cons.prems have "re_search_year cs = Some y" by simp
    from Cons.IH [OF this] obtain pre post where e: "cs = pre @ y @ post" and y: "is_year y"
      and m: "\<forall>pre' y' post'. cs = pre' @ y' @ post' \<and> is_year y' \<longrightarrow> length pre \<le> length pre'"
      by blast
    have "length (c # pre) \<le> length pre'"
      if h: "c # cs = pre' @ y' @ post' \<and> is_year y'" for pre' y' post'
    proof -
      have "pre' \<noteq> []"
      proof
        assume "pre' = []"
        with h have "take 4 (c # cs) = y'" using is_year_length [of y'] by simp
        with h False show False by simp
      qed
      then obtain p where p: "pre' = c # p" using h by (cases pre') auto
      with h have "cs = p @ y' @ post' \<and> is_year y'" by simp
      with m have "length pre \<le> length p" by blast
      with p show ?thesis by simp
    qed
    moreover from e have "c # cs = (c # pre) @ y @ post" by simp
    ultimately show ?thesis using y by blast
  qed
qed


section \<open>Properties of the row enricher\<close>

lemma join_left_rows:
  assumes j: "join_left l r key = Inr out"
    and d: "distinct (map (\<lambda>rr. cell rr key) (rows r))"
  defines "rcols \<equiv> filter (\<lambda>c. c \<noteq> key) (columns r)"
  defines "rnames \<equiv> map (right_name (columns l)) rcols"
  shows "length (rows out) = length (rows l)"
    and "\<And>i. i < length (rows l) \<Longrightarrow> \<exists>ext. rows out ! i = rows l ! i @ ext
     \<and> (\<forall>d\<in>set (rows r). cell (rows l ! i) key \<noteq> None \<and> cell d key = cell (rows l ! i) key
            \<longrightarrow> ext = zip rnames (map (cell d) rcols))
     \<and> ((\<forall>d\<in>set (rows r). cell (rows l ! i) key = None \<or> cell d key \<noteq> cell (rows l ! i) key)
            \<longrightarrow> ext = map (\<lambda>c. (c, None)) rnames)"
proof -
  have ro: "rows out = concat (map (join_row rnames rcols key (rows r)) (rows l))"
    using join_left_Inr(2) [OF j] by (simp add: rcols_def rnames_def)
  note la = concat_join_rows [OF d, of rnames rcols "rows l", folded ro]
  from la show "length (rows out) = length (rows l)"
    by (simp add: list_all2_lengthD)
  fix i assume "i < length (rows l)"
  with la show "\<exists>ext. rows out ! i = rows l ! i @ ext
     \<and> (\<forall>d\<in>set (rows r). cell (rows l ! i) key \<noteq> None \<and> cell d key = cell (rows l ! i) key
            \<longrightarrow> ext = zip rnames (map (cell d) rcols))
     \<and> ((\<forall>d\<in>set (rows r). cell (rows l ! i) key = None \<or> cell d key \<noteq> cell (rows l ! i) key)
            \<longrightarrow> ext = map (\<lambda>c. (c, None)) rnames)"
    by (rule list_all2_nthD)
qed









lemma build_lazy_for_csv_rows:
  assumes b: "build_lazy_for_csv p scs sc dm = Inr (Inr out)"
    and d: "distinct (map (\<lambda>rr. cell rr ''key_norm'') (rows dm))"
  shows "\<exists>ano. year_from_filename p = Inr ano
     \<and> length (rows out) = length (rows sc)
     \<and> (\<forall>i < length (rows sc).
           cell (rows out ! i) ''row_number'' = Some (VInt (int (i + 1)))
         \<and> cell (rows out ! i) ''ano'' = Some (VStr ano)
         \<and> cell (rows out ! i) ''ID'' = Some (VStr (ano @ ''-'' @ zfill 8 (str_of_nat (i + 1)))))"
proof -
  from build_lazy_for_csv_left [OF b] obtain ano lf where
    y: "year_from_filename p = Inr ano" and sh: "shaped lf"
    and len: "length (rows lf) = length (rows sc)"
    and cols: "set scs \<union> {''row_number'', ''ano'', ''ID'', ''key_norm''} \<subseteq> set (columns lf)"
    and cells: "\<forall>i < length (rows sc).
           cell (rows lf ! i) ''row_number'' = Some (VInt (int (i + 1)))
         \<and> cell (rows lf ! i) ''ano'' = Some (VStr ano)
         \<and> cell (rows lf ! i) ''ID'' = Some (VStr (ano @ ''-'' @ zfill 8 (str_of_nat (i + 1))))
         \<and> cell (rows lf ! i) ''key_norm'' =
             (if ''PRINCIPIO_ATIVO'' \<in> set scs
              then normalize_key_expr (cell (rows lf ! i) ''PRINCIPIO_ATIVO'') else None)"
    and fin: "if ''PRINCIPIO_ATIVO'' \<in> set scs then join_left lf dm ''key_norm'' = Inr out
         else out = lf"
    by blast
  show ?thesis
  proof (cases "''PRINCIPIO_ATIVO'' \<in> set scs")
    case False
    with fin have "out = lf" by simp
    with y len cells show ?thesis by blast
  next
    case True
    with fin have j: "join_left lf dm ''key_norm'' = Inr out" by simp
    note jr = join_left_rows [OF j d]
    have "cell (rows out ! i) c = cell (rows lf ! i) c"
      if i: "i < length (rows sc)" and c: "c \<in> set (columns lf)" for i c
    proof -
      from i len jr(2) [of i] obtain ext where e: "rows out ! i = rows lf ! i @ ext" by auto
      from sh i len have "map fst (rows lf ! i) = columns lf"
        by (simp add: shaped_def list_all_length)
      with c show ?thesis by (simp add: e cell_append_left)
    qed
    with cells cols have "\<forall>i < length (rows sc).
           cell (rows out ! i) ''row_number'' = Some (VInt (int (i + 1)))
         \<and> cell (rows out ! i) ''ano'' = Some (VStr ano)
         \<and> cell (rows out ! i) ''ID'' = Some (VStr (ano @ ''-'' @ zfill 8 (str_of_nat (i + 1))))"
      by simp
    with y jr(1) len show ?thesis by simp
  qed
qed

section \<open>The report of unmatched rows\<close>

lemma report_never_written:
  assumes m: "main uniq dict_df input_files = Inr (out, report)"
  shows "report = None \<or> report = Some (Inl (ColumnNotFound ''key_norm''))"
proof (cases "union_frames uniq dict_df input_files")
  case (Inl e)
  with m show ?thesis by (simp add: main_def)
next
  case (Inr res)
  obtain scs all_lf where res: "res = (scs, all_lf)" by (cases res)
  define drop_existing where
    "drop_existing = filter (\<lambda>c. c \<in> set (columns all_lf)) cols_to_drop"
  define all_lf1 where "all_lf1 =
    (if drop_existing \<noteq> [] then drop_columns drop_existing all_lf else all_lf)"
  define first_order where "first_order =
    filter (\<lambda>c. c \<in> set (columns all_lf1)) [''ID'', ''ano'', ''DESCRICAO_APRESENTACAO'']"
  define all_lf2 where
    "all_lf2 = (if first_order \<noteq> [] then reorder first_order all_lf1 else all_lf1)"
  have "main uniq dict_df input_files =
      Inr (all_lf2, if ''PRINCIPIO_ATIVO'' \<in> set scs then Some (unmatched_report all_lf2) else None)"
    by (simp only: main_def Inr res sum.case prod.case Let_def
        all_lf2_def first_order_def all_lf1_def drop_existing_def)
  with m have out: "out = all_lf2"
    and rep: "report = (if ''PRINCIPIO_ATIVO'' \<in> set scs then Some (unmatched_report out) else None)"
    by auto
  have k1: "''key_norm'' \<notin> set (columns all_lf1)"
  proof (cases "''key_norm'' \<in> set (columns all_lf)")
    case True
    then have "''key_norm'' \<in> set drop_existing"
      by (simp add: drop_existing_def cols_to_drop_def)
    then show ?thesis
      by (auto simp: all_lf1_def drop_columns_def)
  next
    case False
    then show ?thesis by (auto simp: all_lf1_def drop_columns_def)
  qed
  have "set first_order \<subseteq> set (columns all_lf1)" by (auto simp: first_order_def)
  with k1 have "''key_norm'' \<notin> set (columns out)"
    by (auto simp: out all_lf2_def reorder_def)
  then have "unmatched_report out = Inl (ColumnNotFound ''key_norm'')"
    by (simp add: unmatched_report_def)
  with rep show ?thesis by simp
qed


section \<open>The claims about the pipeline\<close>

text \<open>
  Claim C3. After the consolidated output is written the run is said to count, for every
  year, the rows whose key matched no dictionary key, and to write the counts to an auxiliary
  file; in the scenario of the specification the file would hold 2020,2 and 2021,1. In the
  code the report plan reads the column \<^verbatim>\<open>key_norm\<close> of a frame from which that column has
  just been dropped, so the plan fails, the failure is caught and only a warning is printed:
  on the scenario the five rows are written and the report is the error. Applied to the frame
  before the drop, the plan counts the rows whose key is null, not the unmatched ones: on the
  scenario it yields no line at all. No run writes the file (lemma \<open>report_never_written\<close>).
\<close>

theorem unmatched_report_fails:
  "map_sum id (\<lambda>(out, report). (length (rows out), report))
     (main keep_first scenario_dict [grouped_2020, grouped_2021])
     = Inr (5, Some (Inl (ColumnNotFound ''key_norm'')))
   \<and> map_sum id (\<lambda>(superset_cols, all_lf). unmatched_report all_lf)
       (union_frames keep_first scenario_dict [grouped_2020, grouped_2021])
     = Inr (Inr [])"
  by code_simp








lemma map_of_zip_maps:
  "distinct (map f xs) \<Longrightarrow> c \<in> set xs \<Longrightarrow> map_of (zip (map f xs) (map g xs)) (f c) = Some (g c)"
proof (induction xs)
  case Nil
  then show ?case by simp
next
  case (Cons x xs)
  show ?case
  proof (cases "c = x")
    case True
    then show ?thesis by simp
  next
    case False
    with Cons.prems have cx: "c \<in> set xs" by simp
    from Cons.prems have "f x \<notin> f ` set xs" by simp
    with cx have "f c \<noteq> f x" by (metis imageI)
    with Cons cx show ?thesis by simp
  qed
qed

lemma cell_zip_maps:
  "distinct (map f xs) \<Longrightarrow> c \<in> set xs \<Longrightarrow> cell (zip (map f xs) (map g xs)) (f c) = g c"
  by (simp add: cell_def map_of_zip_maps)

lemma cell_nulls: "cell (map (\<lambda>c. (c, None)) names) x = None"
  by (induction names) (simp_all add: cell_def)

text \<open>
  Claim C7. When the superset has the principal-substance column, every enriched row carries
  the normalized key of its substance value; if a row of the dictionary mapping has that key,
  the row's descriptor fields are that entry's descriptors, and if no row of the mapping has
  it (a null key included), all descriptor fields are null. The descriptor fields are the
  columns the join appends; polars names a descriptor column whose name the left side has
  already with the suffix \<^verbatim>\<open>_right\<close>.
\<close>

theorem joined_descriptors:
  assumes c: "unique_contract uniq"
    and b: "build_dict_table uniq dict_df = Inr (dict_map, descriptor_cols)"
    and pa: "''PRINCIPIO_ATIVO'' \<in> set superset_cols"
    and bl: "build_lazy_for_csv p superset_cols scanned_csv dict_map = Inr (Inr out)"
  shows "\<exists>lcols. columns out = lcols @ map (right_name lcols) descriptor_cols
     \<and> (\<forall>r\<in>set (rows out).
          cell r ''key_norm'' = normalize_key_expr (cell r ''PRINCIPIO_ATIVO'')
        \<and> (\<forall>d\<in>set (rows dict_map). cell d ''key_norm'' = cell r ''key_norm'' \<longrightarrow>
             (\<forall>c\<in>set descriptor_cols. cell r (right_name lcols c) = cell d c))
        \<and> ((\<forall>d\<in>set (rows dict_map). cell d ''key_norm'' \<noteq> cell r ''key_norm'') \<longrightarrow>
             (\<forall>c\<in>set descriptor_cols. cell r (right_name lcols c) = None)))"
proof -
  note dt = build_dict_table_Inr [OF c b]
  from build_lazy_for_csv_left [OF bl] pa obtain ano lf where
    yr: "year_from_filename p = Inr ano"
    and sh: "shaped lf"
    and len: "length (rows lf) = length (rows scanned_csv)"
    and cols: "set superset_cols \<union> {''row_number'', ''ano'', ''ID'', ''key_norm''} \<subseteq> set (columns lf)"
    and cells: "\<forall>i < length (rows scanned_csv).
          cell (rows lf ! i) ''key_norm'' = normalize_key_expr (cell (rows lf ! i) ''PRINCIPIO_ATIVO'')"
    and j: "join_left lf dict_map ''key_norm'' = Inr out"
    by auto
  define lcols where "lcols = columns lf"
  define rnames where "rnames = map (right_name lcols) descriptor_cols"
  have rc: "filter (\<lambda>c. c \<noteq> ''key_norm'') (columns dict_map) = descriptor_cols"
    using dt(2) by (auto simp: dt(1) filter_id_conv)
  note ji = join_left_Inr [OF j, unfolded rc, folded lcols_def, folded rnames_def]
  note jr = join_left_rows [OF j dt(3), unfolded rc, folded lcols_def, folded rnames_def]
  have row: "cell r ''key_norm'' = normalize_key_expr (cell r ''PRINCIPIO_ATIVO'')
        \<and> (\<forall>d\<in>set (rows dict_map). cell d ''key_norm'' = cell r ''key_norm'' \<longrightarrow>
             (\<forall>c\<in>set descriptor_cols. cell r (right_name lcols c) = cell d c))
        \<and> ((\<forall>d\<in>set (rows dict_map). cell d ''key_norm'' \<noteq> cell r ''key_norm'') \<longrightarrow>
             (\<forall>c\<in>set descriptor_cols. cell r (right_name lcols c) = None))"
    if r: "r \<in> set (rows out)" for r
  proof -
    from r obtain i where i: "i < length (rows out)" and ri: "r = rows out ! i"
      by (auto simp: in_set_conv_nth)
    from i jr(1) have il: "i < length (rows lf)" by simp
    define l where "l = rows lf ! i"
    from jr(2) [OF il] obtain ext where
      e: "r = l @ ext"
      and m: "\<forall>d\<in>set (rows dict_map). cell l ''key_norm'' \<noteq> None \<and> cell d ''key_norm'' = cell l ''key_norm''
                \<longrightarrow> ext = zip rnames (map (cell d) descriptor_cols)"
      and n: "(\<forall>d\<in>set (rows dict_map). cell l ''key_norm'' = None \<or> cell d ''key_norm'' \<noteq> cell l ''key_norm'')
                \<longrightarrow> ext = map (\<lambda>c. (c, None)) rnames"
      unfolding ri l_def by blast
    from sh il have fl: "map fst l = lcols"
      by (simp add: shaped_def list_all_length l_def lcols_def)
    have left: "cell r x = cell l x" if "x \<in> set lcols" for x
      using that by (simp add: e cell_append_left fl)
    have right: "cell r (right_name lcols x) = cell ext (right_name lcols x)"
      if "x \<in> set descriptor_cols" for x
    proof -
      from that have "right_name lcols x \<in> set rnames" by (simp add: rnames_def)
      with ji(3) have "right_name lcols x \<notin> set (map fst l)" by (auto simp: fl)
      then show ?thesis by (simp add: e cell_append_right)
    qed
    from cols have k: "''key_norm'' \<in> set lcols" and q: "''PRINCIPIO_ATIVO'' \<in> set lcols"
      using pa by (auto simp: lcols_def)
    have kl: "cell r ''key_norm'' = cell l ''key_norm''" by (rule left [OF k])
    have "cell l ''key_norm'' = normalize_key_expr (cell l ''PRINCIPIO_ATIVO'')"
      using cells il len by (simp add: l_def)
    then have p1: "cell r ''key_norm'' = normalize_key_expr (cell r ''PRINCIPIO_ATIVO'')"
      by (simp add: left [OF k] left [OF q])
    have p2: "\<forall>c\<in>set descriptor_cols. cell r (right_name lcols c) = cell d c"
      if d: "d \<in> set (rows dict_map)" and eq: "cell d ''key_norm'' = cell r ''key_norm''" for d
    proof
      fix x assume x: "x \<in> set descriptor_cols"
      from dt(4) d have "cell d ''key_norm'' \<noteq> None" by blast
      with eq kl have "cell l ''key_norm'' \<noteq> None \<and> cell d ''key_norm'' = cell l ''key_norm''"
        by simp
      with m d have "ext = zip rnames (map (cell d) descriptor_cols)" by blast
      then have "cell ext (right_name lcols x) = cell d x"
        unfolding rnames_def using ji(4) x by (simp add: cell_zip_maps rnames_def)
      with right [OF x] show "cell r (right_name lcols x) = cell d x" by simp
    qed
    have p3: "\<forall>c\<in>set descriptor_cols. cell r (right_name lcols c) = None"
      if no: "\<forall>d\<in>set (rows dict_map). cell d ''key_norm'' \<noteq> cell r ''key_norm''"
    proof
      fix x assume x: "x \<in> set descriptor_cols"
      from no kl have "\<forall>d\<in>set (rows dict_map). cell l ''key_norm'' = None \<or> cell d ''key_norm'' \<noteq> cell l ''key_norm''"
        by simp
      with n have "ext = map (\<lambda>c. (c, None)) rnames" by blast
      then have "cell ext (right_name lcols x) = None" by (simp add: cell_nulls)
      with right [OF x] show "cell r (right_name lcols x) = None" by simp
    qed
    from p1 p2 p3 show ?thesis by blast
  qed
  have "columns out = lcols @ map (right_name lcols) descriptor_cols"
    using ji(1) by (simp add: rnames_def)
  with row show ?thesis by blast
qed


theorem joined_descriptors_witness:
  "unique_contract keep_first
   \<and> build_dict_table keep_first scenario_dict = Inr (scenario_map, [''CLASSE''])
   \<and> ''PRINCIPIO_ATIVO'' \<in> set [''PRINCIPIO_ATIVO'', ''QTD'']
   \<and> (\<exists>out lcols. build_lazy_for_csv (path grouped_2020) [''PRINCIPIO_ATIVO'', ''QTD'']
               (scanned grouped_2020) scenario_map = Inr (Inr out)
        \<and> columns out = lcols @ map (right_name lcols) [''CLASSE'']
        \<and> cell (rows out ! 1) ''key_norm'' = Some (VStr ''DIPIRONA'')
        \<and> cell (rows out ! 1) (right_name lcols ''CLASSE'') = Some (VStr ''ANALGESICO'')
        \<and> cell (rows out ! 0) ''key_norm'' = Some (VStr ''AMOXICILINA'')
        \<and> cell (rows out ! 0) (right_name lcols ''CLASSE'') = None)"
proof -
  have h1: "unique_contract keep_first" by (rule keep_first_contract)
  have h2: "build_dict_table keep_first scenario_dict = Inr (scenario_map, [''CLASSE''])"
    by code_simp
  have h3: "''PRINCIPIO_ATIVO'' \<in> set [''PRINCIPIO_ATIVO'', ''QTD'']" by simp
  define out where "out = projr (projr (build_lazy_for_csv (path grouped_2020)
      [''PRINCIPIO_ATIVO'', ''QTD''] (scanned grouped_2020) scenario_map))"
  have h4: "build_lazy_for_csv (path grouped_2020) [''PRINCIPIO_ATIVO'', ''QTD'']
               (scanned grouped_2020) scenario_map = Inr (Inr out)"
    unfolding out_def by code_simp
  define d where "d = hd (rows scenario_map)"
  define r1 where "r1 = rows out ! 1"
  define r0 where "r0 = rows out ! 0"
  have len: "length (rows out) = 3" unfolding out_def by code_simp
  have k1: "cell r1 ''key_norm'' = Some (VStr ''DIPIRONA'')"
    unfolding r1_def out_def by code_simp
  have k0: "cell r0 ''key_norm'' = Some (VStr ''AMOXICILINA'')"
    unfolding r0_def out_def by code_simp
  have dm: "rows scenario_map = [d]" unfolding d_def by code_simp
  have dk: "cell d ''key_norm'' = Some (VStr ''DIPIRONA'')" unfolding d_def by code_simp
  have dc: "cell d ''CLASSE'' = Some (VStr ''ANALGESICO'')" unfolding d_def by code_simp
  from joined_descriptors [OF h1 h2 h3 h4] obtain lcols where
    cs: "columns out = lcols @ map (right_name lcols) [''CLASSE'']"
    and rw: "\<forall>r\<in>set (rows out).
        (\<forall>d\<in>set (rows scenario_map). cell d ''key_norm'' = cell r ''key_norm'' \<longrightarrow>
             (\<forall>c\<in>set [''CLASSE'']. cell r (right_name lcols c) = cell d c))
        \<and> ((\<forall>d\<in>set (rows scenario_map). cell d ''key_norm'' \<noteq> cell r ''key_norm'') \<longrightarrow>
             (\<forall>c\<in>set [''CLASSE'']. cell r (right_name lcols c) = None))"
    by blast
  from len have m1: "r1 \<in> set (rows out)" and m0: "r0 \<in> set (rows out)"
    by (simp_all add: r1_def r0_def)
  from bspec [OF rw m1] have "cell r1 (right_name lcols ''CLASSE'') = cell d ''CLASSE''"
    by (simp add: dm dk k1)
  then have c1: "cell r1 (right_name lcols ''CLASSE'') = Some (VStr ''ANALGESICO'')"
    by (simp add: dc)
  from bspec [OF rw m0] have c0: "cell r0 (right_name lcols ''CLASSE'') = None"
    by (simp add: dm dk k0)
  from h1 h2 h3 h4 cs k1 c1 k0 c0 show ?thesis
    unfolding r1_def r0_def by blast
qed

section \<open>Properties of the consolidator\<close>

lemma build_all_Inr:
  "build_all scs dm fs = Inr lfs \<Longrightarrow>
     list_all2 (\<lambda>f lf. build_lazy_for_csv (path f) scs (scanned f) dm = Inr lf) fs lfs"
proof (induction fs arbitrary: lfs)
  case Nil
  then show ?case by simp
next
  case (Cons f fs)
  from Cons.prems obtain lf lfs' where
    a: "build_lazy_for_csv (path f) scs (scanned f) dm = Inr lf"
    and b: "build_all scs dm fs = Inr lfs'" and c: "lfs = lf # lfs'"
    by (auto split: sum.splits)
  from Cons.IH [OF b] a c show ?case by simp
qed

lemma collect_all_Inr: "collect_all lfs = Inr frs \<Longrightarrow> lfs = map Inr frs"
proof (induction lfs arbitrary: frs rule: collect_all.induct)
  case 1
  then show ?case by simp
next
  case (2 e lfs)
  then show ?case by simp
next
  case (3 fr lfs)
  from "3.prems" obtain frs' where a: "collect_all lfs = Inr frs'" and b: "frs = fr # frs'"
    by (auto split: sum.splits)
  from "3.IH" [OF a] b show ?case by simp
qed

lemma concat_frames_Inr:
  "concat_frames lfs = Inr all_lf \<Longrightarrow>
     \<exists>frs. collect_all lfs = Inr frs \<and> rows all_lf = concat (map rows frs)"
  by (auto simp: concat_frames_def split: sum.splits list.splits if_splits)

lemma sum_list_insort_key:
  "sum_list (map g (insort_key k x xs)) = g x + sum_list (map g xs)"
  for g :: "'a \<Rightarrow> nat"
  by (induction xs) simp_all

lemma sum_list_sort_key:
  "sum_list (map g (sort_key k xs)) = sum_list (map g xs)"
  for g :: "'a \<Rightarrow> nat"
  by (induction xs) (simp_all add: sum_list_insort_key)

lemma union_frames_Inr:
  assumes "union_frames uniq dict_df input_files = Inr (scs, all_lf)"
  shows "\<exists>dm dcs lfs. build_dict_table uniq dict_df = Inr (dm, dcs)
     \<and> scs = superset_of (sort_key path input_files)
     \<and> build_all scs dm (sort_key path input_files) = Inr lfs
     \<and> concat_frames lfs = Inr all_lf"
  using assms unfolding union_frames_def Let_def
  by (auto split: if_splits sum.splits list.splits prod.splits)

lemma length_rows_drop_columns: "length (rows (drop_columns cs fr)) = length (rows fr)"
  by (simp add: drop_columns_def)

lemma length_rows_reorder: "length (rows (reorder cs fr)) = length (rows fr)"
  by (simp add: reorder_def)

lemma main_Inr:
  assumes m: "main uniq dict_df input_files = Inr (out, report)"
  shows "\<exists>scs all_lf. union_frames uniq dict_df input_files = Inr (scs, all_lf)
     \<and> length (rows out) = length (rows all_lf)"
proof (cases "union_frames uniq dict_df input_files")
  case (Inl e)
  with m show ?thesis by (simp add: main_def)
next
  case (Inr res)
  obtain scs all_lf where res: "res = (scs, all_lf)" by (cases res)
  define all_lf1 where "all_lf1 =
    (if filter (\<lambda>c. c \<in> set (columns all_lf)) cols_to_drop \<noteq> []
     then drop_columns (filter (\<lambda>c. c \<in> set (columns all_lf)) cols_to_drop) all_lf
     else all_lf)"
  define first_order where "first_order =
    filter (\<lambda>c. c \<in> set (columns all_lf1)) [''ID'', ''ano'', ''DESCRICAO_APRESENTACAO'']"
  from m Inr res have "out = (if first_order \<noteq> [] then reorder first_order all_lf1 else all_lf1)"
    unfolding main_def Let_def first_order_def all_lf1_def
    by (simp del: filter.simps)
  then have "length (rows out) = length (rows all_lf1)"
    by (simp add: length_rows_reorder)
  also have "\<dots> = length (rows all_lf)"
    by (simp add: all_lf1_def length_rows_drop_columns)
  finally show ?thesis using Inr res by simp
qed

lemma frames_row_total:
  assumes d: "distinct (map (\<lambda>rr. cell rr ''key_norm'') (rows dm))"
  shows "build_all scs dm fs = Inr (map Inr frs) \<Longrightarrow>
     sum_list (map (\<lambda>fr. length (rows fr)) frs) = sum_list (map (\<lambda>f. length (rows (scanned f))) fs)"
proof (induction fs arbitrary: frs)
  case Nil
  then show ?case by simp
next
  case (Cons f fs)
  from Cons.prems obtain lf lfs' where
    a: "build_lazy_for_csv (path f) scs (scanned f) dm = Inr lf"
    and b: "build_all scs dm fs = Inr lfs'" and c: "map Inr frs = lf # lfs'"
    by (auto split: sum.splits)
  from c obtain fr frs' where e: "frs = fr # frs'" and lf: "lf = Inr fr" and l': "lfs' = map Inr frs'"
    by (cases frs) auto
  from build_lazy_for_csv_rows [OF a [unfolded lf] d]
  have "length (rows fr) = length (rows (scanned f))" by blast
  moreover from Cons.IH [OF b [unfolded l']]
  have "sum_list (map (\<lambda>fr. length (rows fr)) frs') = sum_list (map (\<lambda>f. length (rows (scanned f))) fs)" .
  ultimately show ?case by (simp add: e)
qed

text \<open>
  Claim C10. The dictionary mapping has one row for each key, so the left join of the row
  enricher neither duplicates nor drops rows: every enriched per-file frame has as many rows
  as were read from its file, and the consolidated frame has as many rows as all files
  together.
\<close>

theorem row_counts_preserved:
  assumes c: "unique_contract uniq"
    and b: "build_dict_table uniq dict_df = Inr (dict_map, descriptor_cols)"
  shows "(\<forall>p superset_cols scanned_csv out.
            build_lazy_for_csv p superset_cols scanned_csv dict_map = Inr (Inr out) \<longrightarrow>
            length (rows out) = length (rows scanned_csv))
     \<and> (\<forall>input_files out report.
            main uniq dict_df input_files = Inr (out, report) \<longrightarrow>
            length (rows out) = sum_list (map (\<lambda>f. length (rows (scanned f))) input_files))"
proof (intro conjI allI impI)
  have d: "distinct (map (\<lambda>rr. cell rr ''key_norm'') (rows dict_map))"
    using build_dict_table_Inr(3) [OF c b] .
  {
    fix p superset_cols scanned_csv out
    assume "build_lazy_for_csv p superset_cols scanned_csv dict_map = Inr (Inr out)"
    from build_lazy_for_csv_rows [OF this d]
    show "length (rows out) = length (rows scanned_csv)" by blast
  }
  {
    fix input_files out report
    assume "main uniq dict_df input_files = Inr (out, report)"
    from main_Inr [OF this] obtain scs all_lf where
      u: "union_frames uniq dict_df input_files = Inr (scs, all_lf)"
      and l: "length (rows out) = length (rows all_lf)" by blast
    from union_frames_Inr [OF u] b obtain lfs where
      ba: "build_all scs dict_map (sort_key path input_files) = Inr lfs"
      and cf: "concat_frames lfs = Inr all_lf" by auto
    from concat_frames_Inr [OF cf] obtain frs where
      ca: "collect_all lfs = Inr frs" and ro: "rows all_lf = concat (map rows frs)" by blast
    from collect_all_Inr [OF ca] have "lfs = map Inr frs" .
    with ba have "build_all scs dict_map (sort_key path input_files) = Inr (map Inr frs)" by simp
    from frames_row_total [OF d this]
    have "sum_list (map (\<lambda>fr. length (rows fr)) frs)
          = sum_list (map (\<lambda>f. length (rows (scanned f))) input_files)"
      by (simp add: sum_list_sort_key)
    moreover have "length (rows all_lf) = sum_list (map (\<lambda>fr. length (rows fr)) frs)"
      by (simp add: ro length_concat comp_def)
    ultimately show "length (rows out) = sum_list (map (\<lambda>f. length (rows (scanned f))) input_files)"
      using l by simp
  }
qed

theorem row_counts_preserved_witness:
  "unique_contract keep_first
   \<and> build_dict_table keep_first scenario_dict = Inr (scenario_map, [''CLASSE''])
   \<and> (\<exists>out report. main keep_first scenario_dict [grouped_2021, grouped_2020] = Inr (out, report)
        \<and> length (rows out) = 5)
   \<and> (\<exists>out. build_lazy_for_csv (path grouped_2021) [''PRINCIPIO_ATIVO'', ''QTD'']
               (scanned grouped_2021) scenario_map = Inr (Inr out)
        \<and> length (rows out) = 2)"
proof -
  have h1: "unique_contract keep_first" by (rule keep_first_contract)
  have h2: "build_dict_table keep_first scenario_dict = Inr (scenario_map, [''CLASSE''])"
    by code_simp
  define res where "res = projr (main keep_first scenario_dict [grouped_2021, grouped_2020])"
  have m: "main keep_first scenario_dict [grouped_2021, grouped_2020] = Inr (fst res, snd res)"
    unfolding res_def by code_simp
  define out where "out = projr (projr (build_lazy_for_csv (path grouped_2021)
      [''PRINCIPIO_ATIVO'', ''QTD''] (scanned grouped_2021) scenario_map))"
  have bl: "build_lazy_for_csv (path grouped_2021) [''PRINCIPIO_ATIVO'', ''QTD'']
               (scanned grouped_2021) scenario_map = Inr (Inr out)"
    unfolding out_def by code_simp
  have s: "sum_list (map (\<lambda>f. length (rows (scanned f))) [grouped_2021, grouped_2020]) = 5"
    by (simp add: grouped_2021_def grouped_2020_def text_frame_def)
  have t: "length (rows (scanned grouped_2021)) = 2"
    by (simp add: grouped_2021_def text_frame_def)
  note rc = row_counts_preserved [OF h1 h2]
  from rc [THEN conjunct2, rule_format, OF m] have "length (rows (fst res))
      = sum_list (map (\<lambda>f. length (rows (scanned f))) [grouped_2021, grouped_2020])" .
  with s have a: "length (rows (fst res)) = 5" by simp
  from rc [THEN conjunct1, rule_format, OF bl]
  have "length (rows out) = length (rows (scanned grouped_2021))" .
  with t have b: "length (rows out) = 2" by simp
  from m a have e1: "\<exists>out report. main keep_first scenario_dict [grouped_2021, grouped_2020]
        = Inr (out, report) \<and> length (rows out) = 5" by blast
  from bl b have e2: "\<exists>out. build_lazy_for_csv (path grouped_2021) [''PRINCIPIO_ATIVO'', ''QTD'']
               (scanned grouped_2021) scenario_map = Inr (Inr out)
        \<and> length (rows out) = 2" by blast
  from h1 h2 e1 e2 show ?thesis by (intro conjI)
qed

lemma build_lazy_for_csv_year:
  "year_from_filename p = Inl e \<Longrightarrow> build_lazy_for_csv p scs sc dm = Inl e"
  "year_from_filename p = Inr y \<Longrightarrow> \<exists>lf. build_lazy_for_csv p scs sc dm = Inr lf"
  by (simp_all add: build_lazy_for_csv_def)

lemma build_all_years:
  assumes "build_all scs dm fs = Inr lfs" and "f \<in> set fs"
  shows "\<exists>y. year_from_filename (path f) = Inr y"
proof -
  from build_all_Inr [OF assms(1)] assms(2)
  obtain lf where "build_lazy_for_csv (path f) scs (scanned f) dm = Inr lf"
    by (auto simp: list_all2_conv_all_nth in_set_conv_nth)
  then show ?thesis
    by (cases "year_from_filename (path f)") (simp_all add: build_lazy_for_csv_year(1))
qed

lemma main_years:
  assumes "main uniq dict_df input_files = Inr res" and "f \<in> set input_files"
  shows "\<exists>y. year_from_filename (path f) = Inr y"
proof -
  obtain out report where "res = (out, report)" by (cases res)
  with assms(1) main_Inr obtain scs all_lf where
    "union_frames uniq dict_df input_files = Inr (scs, all_lf)" by blast
  from union_frames_Inr [OF this] obtain dm lfs where
    "build_all scs dm (sort_key path input_files) = Inr lfs" by blast
  moreover from assms(2) have "f \<in> set (sort_key path input_files)" by simp
  ultimately show ?thesis by (rule build_all_years)
qed

text \<open>
  Claim C9. If the base name of a source file contains no four characters \<^verbatim>\<open>20dd\<close> (two
  digits after \<^verbatim>\<open>20\<close>), year extraction raises an error, \<^verbatim>\<open>build_lazy_for_csv\<close> raises
  it in turn, and a run over a set of files that holds such a file ends in an error. If the
  base name contains such characters, the extracted year is their leftmost occurrence and
  \<^verbatim>\<open>build_lazy_for_csv\<close> returns its plan.
\<close>

theorem year_extraction:
  "(\<not> (\<exists>pre y post. basename p = pre @ y @ post \<and> is_year y) \<longrightarrow>
       year_from_filename p = Inl (YearNotFound p)
     \<and> build_lazy_for_csv p superset_cols scanned_csv dict_map = Inl (YearNotFound p))
   \<and> (\<forall>pre y post. basename p = pre @ y @ post \<and> is_year y \<longrightarrow>
       (\<exists>pre' y' post'. year_from_filename p = Inr y' \<and> basename p = pre' @ y' @ post'
           \<and> is_year y' \<and> length pre' \<le> length pre)
     \<and> (\<exists>lf. build_lazy_for_csv p superset_cols scanned_csv dict_map = Inr lf))
   \<and> (\<forall>f\<in>set input_files.
        \<not> (\<exists>pre y post. basename (path f) = pre @ y @ post \<and> is_year y) \<longrightarrow>
        (\<exists>e. main uniq dict_df input_files = Inl e))"
proof (intro conjI impI allI ballI)
  assume no: "\<not> (\<exists>pre y post. basename p = pre @ y @ post \<and> is_year y)"
  then have "re_search_year (basename p) = None" by (rule iffD2 [OF re_search_year_None])
  then show y: "year_from_filename p = Inl (YearNotFound p)"
    by (simp add: year_from_filename_def)
  then show "build_lazy_for_csv p superset_cols scanned_csv dict_map = Inl (YearNotFound p)"
    by (rule build_lazy_for_csv_year(1))
next
  fix pre y post
  assume m: "basename p = pre @ y @ post \<and> is_year y"
  then have "re_search_year (basename p) \<noteq> None"
    unfolding re_search_year_None by blast
  then obtain y' where s: "re_search_year (basename p) = Some y'" by blast
  from re_search_year_Some [OF s] obtain pre' post' where
    e: "basename p = pre' @ y' @ post'" and iy: "is_year y'"
    and least: "\<forall>pre'' y'' post''. basename p = pre'' @ y'' @ post'' \<and> is_year y''
                  \<longrightarrow> length pre' \<le> length pre''"
    by blast
  from least m have "length pre' \<le> length pre" by blast
  moreover from s have yr: "year_from_filename p = Inr y'"
    by (simp add: year_from_filename_def)
  ultimately show "\<exists>pre' y' post'. year_from_filename p = Inr y' \<and> basename p = pre' @ y' @ post'
           \<and> is_year y' \<and> length pre' \<le> length pre"
    using e iy by blast
  from yr show "\<exists>lf. build_lazy_for_csv p superset_cols scanned_csv dict_map = Inr lf"
    by (rule build_lazy_for_csv_year(2))
next
  fix f
  assume f: "f \<in> set input_files"
    and no: "\<not> (\<exists>pre y post. basename (path f) = pre @ y @ post \<and> is_year y)"
  from no have "re_search_year (basename (path f)) = None"
    by (rule iffD2 [OF re_search_year_None])
  then have ny: "year_from_filename (path f) = Inl (YearNotFound (path f))"
    by (simp add: year_from_filename_def)
  show "\<exists>e. main uniq dict_df input_files = Inl e"
  proof (cases "main uniq dict_df input_files")
    case (Inl e)
    then show ?thesis by blast
  next
    case (Inr res)
    from main_years [OF Inr f] ny show ?thesis by simp
  qed
qed

theorem year_extraction_witness:
  "\<not> (\<exists>pre y post. basename (path grouped_noyear) = pre @ y @ post \<and> is_year y)
   \<and> year_from_filename (path grouped_noyear) = Inl (YearNotFound (path grouped_noyear))
   \<and> grouped_noyear \<in> set [grouped_2021, grouped_noyear]
   \<and> (\<exists>e. main keep_first scenario_dict [grouped_2021, grouped_noyear] = Inl e)
   \<and> basename ''in/grouped_2019_2021.csv'' = ''grouped_2019_'' @ ''2021'' @ ''.csv''
   \<and> is_year ''2021''
   \<and> year_from_filename ''in/grouped_2019_2021.csv'' = Inr ''2019''
   \<and> (\<exists>pre' post'. basename ''in/grouped_2019_2021.csv'' = pre' @ ''2019'' @ post'
         \<and> length pre' \<le> length ''grouped_2019_'')"
proof -
  have "re_search_year (basename (path grouped_noyear)) = None" by code_simp
  then have no: "\<not> (\<exists>pre y post. basename (path grouped_noyear) = pre @ y @ post \<and> is_year y)"
    by (rule iffD1 [OF re_search_year_None])
  have mem: "grouped_noyear \<in> set [grouped_2021, grouped_noyear]" by simp
  have b: "basename ''in/grouped_2019_2021.csv'' = ''grouped_2019_'' @ ''2021'' @ ''.csv''"
    by code_simp
  have iy: "is_year ''2021''" by code_simp
  have ev: "year_from_filename ''in/grouped_2019_2021.csv'' = Inr ''2019''" by code_simp
  note t1 = year_extraction [of "path grouped_noyear" "[]" "scanned grouped_noyear" scenario_map
      "[grouped_2021, grouped_noyear]" keep_first scenario_dict]
  from t1 no have y: "year_from_filename (path grouped_noyear) = Inl (YearNotFound (path grouped_noyear))"
    by blast
  from t1 have "\<forall>f\<in>set [grouped_2021, grouped_noyear].
        \<not> (\<exists>pre y post. basename (path f) = pre @ y @ post \<and> is_year y) \<longrightarrow>
        (\<exists>e. main keep_first scenario_dict [grouped_2021, grouped_noyear] = Inl e)"
    by (elim conjE)
  from bspec [OF this mem] no
  have ab: "\<exists>e. main keep_first scenario_dict [grouped_2021, grouped_noyear] = Inl e" by (rule mp)
  note t2 = year_extraction [of "''in/grouped_2019_2021.csv''" "[]" "scanned grouped_noyear"
      scenario_map "[]" keep_first scenario_dict]
  from t2 have "\<forall>pre y post. basename ''in/grouped_2019_2021.csv'' = pre @ y @ post \<and> is_year y \<longrightarrow>
       (\<exists>pre' y' post'. year_from_filename ''in/grouped_2019_2021.csv'' = Inr y'
           \<and> basename ''in/grouped_2019_2021.csv'' = pre' @ y' @ post'
           \<and> is_year y' \<and> length pre' \<le> length pre)
       \<and> (\<exists>lf. build_lazy_for_csv ''in/grouped_2019_2021.csv'' [] (scanned grouped_noyear)
                 scenario_map = Inr lf)"
    by (elim conjE)
  from this [rule_format, of "''grouped_2019_''" "''2021''" "''.csv''"] b iy
  obtain pre' y' post' where "year_from_filename ''in/grouped_2019_2021.csv'' = Inr y'"
    and "basename ''in/grouped_2019_2021.csv'' = pre' @ y' @ post'"
    and "length pre' \<le> length ''grouped_2019_''"
    by blast
  with ev have fo: "\<exists>pre' post'. basename ''in/grouped_2019_2021.csv'' = pre' @ ''2019'' @ post'
         \<and> length pre' \<le> length ''grouped_2019_''"
    by auto
  from no y mem ab b iy ev fo show ?thesis by (intro conjI)
qed






end
